theory Spec2Isabelle
  imports Main "HOL-Library.Multiset"
begin

section \<open>FileCache: LRU cache keyed by uri, validated by content hash\<close>

text \<open>
  Source: \<^verbatim>\<open>cache/fileCache.ts\<close>, class \<^verbatim>\<open>FileCache<T>\<close>. JavaScript numbers that hold
  timestamps, byte counts and limits are modelled as \<open>int\<close>. The \<^verbatim>\<open>Map\<close> of entries iterates
  in insertion order, and \<^verbatim>\<open>evictLRU\<close> depends on that order for ties, so the map is an
  association list. \<^verbatim>\<open>Date.now()\<close> is passed to every operation as the argument \<open>now\<close>.
\<close>

record 'a CacheEntry =
  data :: 'a
  contentHash :: string
  createdAt :: int
  accessCount :: nat
  lastAccessedAt :: int
  sizeBytes :: int

record 'a FileCache =
  entries :: "(string \<times> 'a CacheEntry) list"
  maxEntries :: int
  maxSizeBytes :: int
  ttlMs :: int
  totalSizeBytes :: int
  hits :: nat
  misses :: nat
  evictions :: nat

text \<open>The constructor: \<^verbatim>\<open>maxSizeMb * 1024 * 1024\<close> and \<^verbatim>\<open>ttlSeconds * 1000\<close>.\<close>

definition newFileCache :: "int \<Rightarrow> int \<Rightarrow> int \<Rightarrow> 'a FileCache" where
  "newFileCache cfgMaxEntries cfgMaxSizeMb cfgTtlSeconds =
     \<lparr> entries = [], maxEntries = cfgMaxEntries,
       maxSizeBytes = cfgMaxSizeMb * 1024 * 1024, ttlMs = cfgTtlSeconds * 1000,
       totalSizeBytes = 0, hits = 0, misses = 0, evictions = 0 \<rparr>"

text \<open>\<^verbatim>\<open>Map.prototype.set\<close>: an existing key keeps its position, a new key goes last.\<close>

fun map_set :: "string \<Rightarrow> 'v \<Rightarrow> (string \<times> 'v) list \<Rightarrow> (string \<times> 'v) list" where
  "map_set k v [] = [(k, v)]"
| "map_set k v ((k', v') # rest) =
     (if k' = k then (k, v) # rest else (k', v') # map_set k v rest)"

text \<open>\<^verbatim>\<open>Map.prototype.delete\<close>.\<close>

definition map_delete :: "string \<Rightarrow> (string \<times> 'v) list \<Rightarrow> (string \<times> 'v) list" where
  "map_delete k xs = filter (\<lambda>p. fst p \<noteq> k) xs"

definition deleteEntry :: "string \<Rightarrow> 'a FileCache \<Rightarrow> bool \<times> 'a FileCache" where
  "deleteEntry uri c =
     (case map_of (entries c) uri of
        None \<Rightarrow> (False, c)
      | Some entry \<Rightarrow>
          (True, c\<lparr> totalSizeBytes := totalSizeBytes c - sizeBytes entry,
                   entries := map_delete uri (entries c) \<rparr>))"

text \<open>
  The scan of \<^verbatim>\<open>evictLRU\<close>: \<^verbatim>\<open>oldestAccess\<close> starts at \<^verbatim>\<open>Infinity\<close> (here \<open>None\<close>),
  \<^verbatim>\<open>oldestUri\<close> at \<^verbatim>\<open>undefined\<close>; the comparison is strict, so the first entry among
  equally old ones is kept.
\<close>

fun scanOldest ::
  "(string \<times> 'a CacheEntry) list \<Rightarrow> string option \<times> int option \<Rightarrow> string option \<times> int option"
where
  "scanOldest [] acc = acc"
| "scanOldest ((uri, entry) # rest) (oldestUri, oldestAccess) =
     (if (case oldestAccess of None \<Rightarrow> True | Some a \<Rightarrow> lastAccessedAt entry < a)
      then scanOldest rest (Some uri, Some (lastAccessedAt entry))
      else scanOldest rest (oldestUri, oldestAccess))"

text \<open>
  \<^verbatim>\<open>if (oldestUri) { deleteEntry; evictions++ }\<close>: the test is JavaScript truthiness, so
  both \<^verbatim>\<open>undefined\<close> and the empty string skip the deletion.
\<close>

definition evictLRU :: "'a FileCache \<Rightarrow> 'a FileCache" where
  "evictLRU c =
     (case fst (scanOldest (entries c) (None, None)) of
        None \<Rightarrow> c
      | Some oldestUri \<Rightarrow>
          if oldestUri = [] then c
          else (snd (deleteEntry oldestUri c))\<lparr> evictions := evictions c + 1 \<rparr>)"

text \<open>
  The two \<^verbatim>\<open>while\<close> loops of \<^verbatim>\<open>evictIfNeeded\<close>. Neither has a bound of its own: a loop
  that never leaves is the value \<open>None\<close>.
\<close>

partial_function (option) evictByCount :: "'a FileCache \<Rightarrow> 'a FileCache option" where
  [code]: "evictByCount c =
     (if int (length (entries c)) > maxEntries c then evictByCount (evictLRU c) else Some c)"

partial_function (option) evictBySize :: "'a FileCache \<Rightarrow> 'a FileCache option" where
  [code]: "evictBySize c =
     (if totalSizeBytes c > maxSizeBytes c \<and> length (entries c) > 0
      then evictBySize (evictLRU c) else Some c)"

definition evictIfNeeded :: "'a FileCache \<Rightarrow> 'a FileCache option" where
  "evictIfNeeded c = (case evictByCount c of None \<Rightarrow> None | Some c' \<Rightarrow> evictBySize c')"

definition FileCache_get ::
  "int \<Rightarrow> string \<Rightarrow> string \<Rightarrow> 'a FileCache \<Rightarrow> 'a option \<times> 'a FileCache"
where
  "FileCache_get now uri hash c =
     (case map_of (entries c) uri of
        None \<Rightarrow> (None, c\<lparr> misses := misses c + 1 \<rparr>)
      | Some entry \<Rightarrow>
          if contentHash entry \<noteq> hash
          then (None, snd (deleteEntry uri (c\<lparr> misses := misses c + 1 \<rparr>)))
          else if now - createdAt entry > ttlMs c
          then (None, snd (deleteEntry uri (c\<lparr> misses := misses c + 1 \<rparr>)))
          else (Some (data entry),
                c\<lparr> entries :=
                      map_set uri
                        (entry\<lparr> accessCount := accessCount entry + 1, lastAccessedAt := now \<rparr>)
                        (entries c),
                   hits := hits c + 1 \<rparr>))"

text \<open>
  \<^verbatim>\<open>set\<close>. The size estimate \<^verbatim>\<open>estimateSize(data)\<close> (the byte length of the JSON text, or
  1024 when serialising throws) is the parameter \<open>est\<close>.
\<close>

definition FileCache_set ::
  "('a \<Rightarrow> int) \<Rightarrow> int \<Rightarrow> string \<Rightarrow> string \<Rightarrow> 'a \<Rightarrow> 'a FileCache \<Rightarrow> 'a FileCache option"
where
  "FileCache_set est now uri hash d c =
     (let c1 = (if map_of (entries c) uri \<noteq> None then snd (deleteEntry uri c) else c);
          entry = \<lparr> data = d, contentHash = hash, createdAt = now, accessCount = 0,
                    lastAccessedAt = now, sizeBytes = est d \<rparr>;
          c2 = c1\<lparr> entries := map_set uri entry (entries c1),
                   totalSizeBytes := totalSizeBytes c1 + est d \<rparr>
      in evictIfNeeded c2)"

definition FileCache_invalidate :: "string \<Rightarrow> 'a FileCache \<Rightarrow> bool \<times> 'a FileCache" where
  "FileCache_invalidate uri c = deleteEntry uri c"

definition FileCache_clear :: "'a FileCache \<Rightarrow> 'a FileCache" where
  "FileCache_clear c =
     c\<lparr> entries := [], totalSizeBytes := 0, evictions := 0, hits := 0, misses := 0 \<rparr>"

definition FileCache_has :: "int \<Rightarrow> string \<Rightarrow> string \<Rightarrow> 'a FileCache \<Rightarrow> bool" where
  "FileCache_has now uri hash c =
     (case map_of (entries c) uri of
        None \<Rightarrow> False
      | Some entry \<Rightarrow>
          if contentHash entry \<noteq> hash then False else now - createdAt entry \<le> ttlMs c)"

section \<open>Diagnostics and analysis results\<close>

text \<open>Source: \<^verbatim>\<open>shared/src/types.ts\<close>.\<close>

datatype DiagnosticSeverity = Sev_error | Sev_warning | Sev_info | Sev_hint

datatype DiagnosticSource = Src_tsgo | Src_oxc | Src_tsgo_turbo

record TurbodiagnosticItem =
  d_file :: string
  line :: int
  column :: int
  endLine :: "int option"
  endColumn :: "int option"
  message :: string
  severity :: DiagnosticSeverity
  source :: DiagnosticSource
  code :: "string option"
  computeTimeMs :: int
  diagData :: "(string \<times> string) list option"

record FileAnalysisResult =
  r_uri :: string
  diagnostics :: "TurbodiagnosticItem list"
  analysisTimeMs :: int
  cached :: bool
  r_contentHash :: string

section \<open>Severity mapping of the two integrations\<close>

text \<open>
  \<^verbatim>\<open>String.prototype.toLowerCase\<close> on the ASCII letters; every recognised severity word is
  ASCII, and no other character lower-cases to a letter that occurs in one of them.
\<close>

definition lowerChar :: "char \<Rightarrow> char" where
  "lowerChar c =
     (let n = (of_char c :: nat) in if 65 \<le> n \<and> n \<le> 90 then char_of (n + 32) else c)"

definition toLowerCase :: "string \<Rightarrow> string" where
  "toLowerCase s = map lowerChar s"

text \<open>Source: \<^verbatim>\<open>integrations/tsgo.ts\<close>, \<^verbatim>\<open>TsgoIntegration.mapSeverity\<close>.\<close>

definition TsgoIntegration_mapSeverity :: "string \<Rightarrow> DiagnosticSeverity" where
  "TsgoIntegration_mapSeverity sev =
     (let s = toLowerCase sev in
      if s = ''error'' then Sev_error
      else if s = ''warning'' \<or> s = ''warn'' then Sev_warning
      else if s = ''info'' \<or> s = ''information'' then Sev_info
      else if s = ''hint'' \<or> s = ''suggestion'' then Sev_hint
      else Sev_error)"

text \<open>Source: \<^verbatim>\<open>integrations/oxc.ts\<close>, \<^verbatim>\<open>OxcIntegration.mapSeverity\<close>.\<close>

definition OxcIntegration_mapSeverity :: "string \<Rightarrow> DiagnosticSeverity" where
  "OxcIntegration_mapSeverity sev =
     (let s = toLowerCase sev in
      if s = ''error'' \<or> s = ''deny'' then Sev_error
      else if s = ''warning'' \<or> s = ''warn'' then Sev_warning
      else if s = ''info'' \<or> s = ''advice'' then Sev_info
      else if s = ''hint'' \<or> s = ''help'' then Sev_hint
      else Sev_warning)"

definition tsgoRecognized :: "string set" where
  "tsgoRecognized =
     {''error'', ''warning'', ''warn'', ''info'', ''information'', ''hint'', ''suggestion''}"

definition oxcRecognized :: "string set" where
  "oxcRecognized =
     {''error'', ''deny'', ''warning'', ''warn'', ''info'', ''advice'', ''hint'', ''help''}"

section \<open>AnalysisBridge: queue, deduplication, merge\<close>

text \<open>Source: \<^verbatim>\<open>integrations/bridge.ts\<close>.\<close>

datatype AnalysisPriority = Active | Open | Background

fun priorityValue :: "AnalysisPriority \<Rightarrow> int" where
  "priorityValue Active = 0"
| "priorityValue Open = 1"
| "priorityValue Background = 2"

text \<open>
  A queue item carries the \<^verbatim>\<open>resolve\<close>/\<^verbatim>\<open>reject\<close> pair of the promise that
  \<^verbatim>\<open>analyzeFile\<close> returned; \<open>handle\<close> names that promise.
\<close>

record QueueItem =
  uri :: string
  content :: string
  priority :: AnalysisPriority
  force :: bool
  handle :: nat
  enqueuedAt :: int

text \<open>An \<^verbatim>\<open>executeAnalysis\<close> call that waits in \<^verbatim>\<open>Promise.allSettled\<close>.\<close>

record ActiveAnalysis =
  item :: QueueItem
  startTime :: int

datatype Settlement = Resolved FileAnalysisResult | Rejected string

datatype 'a Settled = Fulfilled 'a | Failed string

record AnalysisBridge =
  cache :: "FileAnalysisResult FileCache"
  cacheEnabled :: bool
  tsgoEnabled :: bool
  oxcEnabled :: bool
  queue :: "QueueItem list"
  processing :: bool
  maxConcurrentAnalyses :: int
  activeAnalyses :: int
  filesAnalyzedCount :: nat
  running :: "ActiveAnalysis list"
  settlements :: "(nat \<times> Settlement) list"
  nextHandle :: nat

definition newAnalysisBridge ::
  "FileAnalysisResult FileCache \<Rightarrow> bool \<Rightarrow> bool \<Rightarrow> bool \<Rightarrow> int \<Rightarrow> AnalysisBridge"
where
  "newAnalysisBridge c ce te oe maxConc =
     \<lparr> cache = c, cacheEnabled = ce, tsgoEnabled = te, oxcEnabled = oe, queue = [],
       processing = False, maxConcurrentAnalyses = maxConc, activeAnalyses = 0,
       filesAnalyzedCount = 0, running = [], settlements = [], nextHandle = 0 \<rparr>"

text \<open>\<^verbatim>\<open>Number.prototype.toString\<close> on an integer, as the template literal of the key uses it.\<close>

fun showNat :: "nat \<Rightarrow> string" where
  "showNat n =
     (if n < 10 then [char_of (48 + n)] else showNat (n div 10) @ [char_of (48 + n mod 10)])"

definition numberToString :: "int \<Rightarrow> string" where
  "numberToString i = (if i < 0 then CHR ''-'' # showNat (nat (- i)) else showNat (nat i))"

text \<open>
  \<^verbatim>\<open>FileCache.estimateSize\<close> at the type of the results the bridge caches:
  \<^verbatim>\<open>Buffer.byteLength(JSON.stringify(data), 'utf-8')\<close>. \<open>jsonResult\<close> is the text
  \<^verbatim>\<open>JSON.stringify\<close> gives for a result: members in the order in which the objects are
  built, members that are \<^verbatim>\<open>undefined\<close> left out, strings quoted with the escapes of
  \<^verbatim>\<open>JSON.stringify\<close>. A character stands for the code unit of the same value, so that
  in UTF-8 it takes one byte below 128 and two bytes from 128 on. The values under \<^verbatim>\<open>data\<close>
  are carried as texts. Numbers are integers below \<open>10^21\<close> in absolute value.
  \<^verbatim>\<open>JSON.stringify\<close> does not throw on such a result, so the fallback of 1024 bytes in the
  \<^verbatim>\<open>catch\<close> branch is never taken.
\<close>

definition hexDigit :: "nat \<Rightarrow> char" where
  "hexDigit n = (if n < 10 then char_of (48 + n) else char_of (87 + n))"

definition jsonEscape :: "char \<Rightarrow> string" where
  "jsonEscape c =
     (let n = (of_char c :: nat) in
      if n = 34 then [CHR 0x5C, CHR 0x22]
      else if n = 92 then [CHR 0x5C, CHR 0x5C]
      else if n = 8 then [CHR 0x5C, CHR ''b'']
      else if n = 9 then [CHR 0x5C, CHR ''t'']
      else if n = 10 then [CHR 0x5C, CHR ''n'']
      else if n = 12 then [CHR 0x5C, CHR ''f'']
      else if n = 13 then [CHR 0x5C, CHR ''r'']
      else if n < 32
      then [CHR 0x5C, CHR ''u'', CHR ''0'', CHR ''0'', hexDigit (n div 16), hexDigit (n mod 16)]
      else [c])"

definition jsonString :: "string \<Rightarrow> string" where
  "jsonString s = CHR 0x22 # concat (map jsonEscape s) @ [CHR 0x22]"

fun joinComma :: "string list \<Rightarrow> string" where
  "joinComma [] = []"
| "joinComma [x] = x"
| "joinComma (x # y # zs) = x @ '','' @ joinComma (y # zs)"

definition jsonObject :: "(string \<times> string) list \<Rightarrow> string" where
  "jsonObject members =
     ''{'' @ joinComma (map (\<lambda>(k, v). jsonString k @ '':'' @ v) members) @ ''}''"

definition jsonArray :: "string list \<Rightarrow> string" where
  "jsonArray elements = ''['' @ joinComma elements @ '']''"

definition optionalMember :: "string \<Rightarrow> ('a \<Rightarrow> string) \<Rightarrow> 'a option \<Rightarrow> (string \<times> string) list" where
  "optionalMember k f v = (case v of None \<Rightarrow> [] | Some x \<Rightarrow> [(k, f x)])"

fun severityName :: "DiagnosticSeverity \<Rightarrow> string" where
  "severityName Sev_error = ''error''"
| "severityName Sev_warning = ''warning''"
| "severityName Sev_info = ''info''"
| "severityName Sev_hint = ''hint''"

fun sourceName :: "DiagnosticSource \<Rightarrow> string" where
  "sourceName Src_tsgo = ''tsgo''"
| "sourceName Src_oxc = ''oxc''"
| "sourceName Src_tsgo_turbo = ''tsgo-turbo''"

definition jsonDiagnostic :: "TurbodiagnosticItem \<Rightarrow> string" where
  "jsonDiagnostic d =
     jsonObject
       ([(''file'', jsonString (d_file d)),
         (''line'', numberToString (line d)),
         (''column'', numberToString (column d))]
        @ optionalMember ''endLine'' numberToString (endLine d)
        @ optionalMember ''endColumn'' numberToString (endColumn d)
        @ [(''message'', jsonString (message d)),
           (''severity'', jsonString (severityName (severity d))),
           (''source'', jsonString (sourceName (source d)))]
        @ optionalMember ''code'' jsonString (code d)
        @ [(''computeTimeMs'', numberToString (computeTimeMs d))]
        @ optionalMember ''data''
            (\<lambda>dat. jsonObject (map (\<lambda>(k, v). (k, jsonString v)) dat)) (diagData d))"

definition jsonResult :: "FileAnalysisResult \<Rightarrow> string" where
  "jsonResult r =
     jsonObject
       [(''uri'', jsonString (r_uri r)),
        (''diagnostics'', jsonArray (map jsonDiagnostic (diagnostics r))),
        (''analysisTimeMs'', numberToString (analysisTimeMs r)),
        (''cached'', if cached r then ''true'' else ''false''),
        (''contentHash'', jsonString (r_contentHash r))]"

definition utf8Length :: "string \<Rightarrow> nat" where
  "utf8Length s = sum_list (map (\<lambda>c. if (of_char c :: nat) < 128 then 1 else 2) s)"

definition estimateSize :: "FileAnalysisResult \<Rightarrow> int" where
  "estimateSize r = int (utf8Length (jsonResult r))"

text \<open>The key of \<^verbatim>\<open>deduplicateDiagnostics\<close>: the four fields joined by colons.\<close>

definition diagKey :: "TurbodiagnosticItem \<Rightarrow> string" where
  "diagKey d =
     d_file d @ '':'' @ numberToString (line d) @ '':'' @ numberToString (column d) @ '':''
       @ message d"

definition dedupStep ::
  "(string \<times> TurbodiagnosticItem) list \<Rightarrow> TurbodiagnosticItem
     \<Rightarrow> (string \<times> TurbodiagnosticItem) list"
where
  "dedupStep seen d =
     (case map_of seen (diagKey d) of
        None \<Rightarrow> map_set (diagKey d) d seen
      | Some existing \<Rightarrow>
          if source d = Src_tsgo \<and> source existing \<noteq> Src_tsgo
          then map_set (diagKey d) d seen else seen)"

definition deduplicateDiagnostics :: "TurbodiagnosticItem list \<Rightarrow> TurbodiagnosticItem list" where
  "deduplicateDiagnostics ds = map snd (foldl dedupStep [] ds)"

text \<open>\<^verbatim>\<open>findIndex\<close> followed by \<^verbatim>\<open>splice(idx, 1)\<close>: the first match and the list without it.\<close>

fun spliceFirst :: "('a \<Rightarrow> bool) \<Rightarrow> 'a list \<Rightarrow> 'a option \<times> 'a list" where
  "spliceFirst P [] = (None, [])"
| "spliceFirst P (x # xs) =
     (if P x then (Some x, xs) else (let (r, ys) = spliceFirst P xs in (r, x # ys)))"

text \<open>
  The \<^verbatim>\<open>while\<close> loop of \<^verbatim>\<open>processQueue\<close>: each turn shifts the head of the queue and starts
  \<^verbatim>\<open>executeAnalysis\<close> on it, which runs up to its \<^verbatim>\<open>await\<close>.
\<close>

fun dispatchLoop ::
  "int \<Rightarrow> int \<Rightarrow> QueueItem list \<Rightarrow> int \<Rightarrow> ActiveAnalysis list
     \<Rightarrow> QueueItem list \<times> int \<times> ActiveAnalysis list"
where
  "dispatchLoop now maxConc [] act run = ([], act, run)"
| "dispatchLoop now maxConc (it # rest) act run =
     (if act < maxConc
      then dispatchLoop now maxConc rest (act + 1) (run @ [\<lparr> item = it, startTime = now \<rparr>])
      else (it # rest, act, run))"

definition processQueue :: "int \<Rightarrow> AnalysisBridge \<Rightarrow> AnalysisBridge" where
  "processQueue now s =
     (if processing s then s
      else (case dispatchLoop now (maxConcurrentAnalyses s) (queue s) (activeAnalyses s) (running s)
            of (q, act, run) \<Rightarrow>
              s\<lparr> queue := q, activeAnalyses := act, running := run, processing := False \<rparr>))"

text \<open>
  The cache consultation at the head of \<^verbatim>\<open>analyzeFile\<close>. \<^verbatim>\<open>FileCache.computeHash\<close> (MD5 of
  the content, from the platform's crypto library) is the parameter \<open>computeHash\<close>.
\<close>

definition cacheLookup ::
  "(string \<Rightarrow> string) \<Rightarrow> int \<Rightarrow> string \<Rightarrow> string \<Rightarrow> bool \<Rightarrow> AnalysisBridge
     \<Rightarrow> FileAnalysisResult option \<times> AnalysisBridge"
where
  "cacheLookup computeHash now u c f s =
     (if \<not> f \<and> cacheEnabled s
      then (case FileCache_get now u (computeHash c) (cache s) of
              (r, cache') \<Rightarrow> (r, s\<lparr> cache := cache' \<rparr>))
      else (None, s))"

definition supersededError :: string where
  "supersededError = ''Superseded by newer request''"

definition newItem ::
  "int \<Rightarrow> nat \<Rightarrow> string \<Rightarrow> string \<Rightarrow> bool \<Rightarrow> AnalysisPriority \<Rightarrow> QueueItem"
where
  "newItem now h u c f p =
     \<lparr> uri = u, content = c, priority = p, force = f, handle = h, enqueuedAt = now \<rparr>"

text \<open>
  The deduplication block of \<^verbatim>\<open>analyzeFile\<close>: the first queued item for the uri, if there
  is one, is rejected and spliced out of the queue.
\<close>

definition supersede :: "string \<Rightarrow> AnalysisBridge \<Rightarrow> AnalysisBridge" where
  "supersede u s1 =
     (case spliceFirst (\<lambda>i. uri i = u) (queue s1) of
        (Some existing, q') \<Rightarrow>
          s1\<lparr> settlements := settlements s1 @ [(handle existing, Rejected supersededError)],
              queue := q' \<rparr>
      | (None, q') \<Rightarrow> s1)"

definition analyzeFile ::
  "(string \<Rightarrow> string) \<Rightarrow> int \<Rightarrow> string \<Rightarrow> string \<Rightarrow> bool \<Rightarrow> AnalysisPriority
     \<Rightarrow> AnalysisBridge \<Rightarrow> AnalysisBridge"
where
  "analyzeFile computeHash now u c f p s =
     (let h = nextHandle s in
      case cacheLookup computeHash now u c f s of
        (Some hit, s1) \<Rightarrow>
          s1\<lparr> nextHandle := h + 1,
              settlements := settlements s1 @ [(h, Resolved (hit\<lparr> cached := True \<rparr>))] \<rparr>
      | (None, s1) \<Rightarrow>
          processQueue now
            ((supersede u s1)
               \<lparr> nextHandle := h + 1,
                 queue := sort_key (\<lambda>i. priorityValue (priority i))
                            (queue (supersede u s1) @ [newItem now h u c f p]) \<rparr>))"

text \<open>
  The continuation of \<^verbatim>\<open>executeAnalysis\<close> after \<^verbatim>\<open>Promise.allSettled\<close>: the settled
  outcomes of the enabled tools, in the order tsgo, oxc.
\<close>

definition settledResults ::
  "AnalysisBridge \<Rightarrow> FileAnalysisResult Settled \<Rightarrow> FileAnalysisResult Settled
     \<Rightarrow> FileAnalysisResult Settled list"
where
  "settledResults s tsgoOutcome oxcOutcome =
     (if tsgoEnabled s then [tsgoOutcome] else []) @ (if oxcEnabled s then [oxcOutcome] else [])"

fun fulfilledDiagnostics :: "FileAnalysisResult Settled \<Rightarrow> TurbodiagnosticItem list" where
  "fulfilledDiagnostics (Fulfilled v) = diagnostics v"
| "fulfilledDiagnostics (Failed reason) = []"

definition mergedResult ::
  "(string \<Rightarrow> string) \<Rightarrow> int \<Rightarrow> ActiveAnalysis \<Rightarrow> FileAnalysisResult Settled list
     \<Rightarrow> FileAnalysisResult"
where
  "mergedResult computeHash now a results =
     \<lparr> r_uri = uri (item a),
       diagnostics = deduplicateDiagnostics (concat (map fulfilledDiagnostics results)),
       analysisTimeMs = now - startTime a,
       cached = False,
       r_contentHash = computeHash (content (item a)) \<rparr>"

text \<open>
  The completion of one running analysis: merge, store in the cache, resolve the caller's
  promise, then the \<^verbatim>\<open>finally\<close> callback of \<^verbatim>\<open>processQueue\<close> (\<^verbatim>\<open>activeAnalyses--\<close> and
  \<^verbatim>\<open>processQueue()\<close>). \<open>None\<close> when the cache insertion never returns. The tracer and the
  logger are left out, and nothing else in the \<^verbatim>\<open>try\<close> block throws (\<^verbatim>\<open>estimateSize\<close> catches
  its own exception), so the \<^verbatim>\<open>catch\<close> branch, which resolves with an empty result, has no
  counterpart here.
\<close>

definition executeAnalysis ::
  "(FileAnalysisResult \<Rightarrow> int) \<Rightarrow> (string \<Rightarrow> string) \<Rightarrow> int \<Rightarrow> ActiveAnalysis
     \<Rightarrow> FileAnalysisResult Settled \<Rightarrow> FileAnalysisResult Settled \<Rightarrow> AnalysisBridge
     \<Rightarrow> AnalysisBridge option"
where
  "executeAnalysis est computeHash now a tsgoOutcome oxcOutcome s =
     (let m = mergedResult computeHash now a (settledResults s tsgoOutcome oxcOutcome);
          stored = (if cacheEnabled s
                    then FileCache_set est now (uri (item a)) (r_contentHash m) m (cache s)
                    else Some (cache s))
      in case stored of
           None \<Rightarrow> None
         | Some cache' \<Rightarrow>
             Some (processQueue now
                     (s\<lparr> cache := cache',
                         filesAnalyzedCount := filesAnalyzedCount s + 1,
                         settlements := settlements s @ [(handle (item a), Resolved m)],
                         running := remove1 a (running s),
                         activeAnalyses := activeAnalyses s - 1 \<rparr>)))"

definition shutdownError :: string where
  "shutdownError = ''AnalysisBridge shutting down''"

definition shutdown :: "AnalysisBridge \<Rightarrow> AnalysisBridge" where
  "shutdown s =
     s\<lparr> settlements := settlements s @ map (\<lambda>i. (handle i, Rejected shutdownError)) (queue s),
        queue := [] \<rparr>"

text \<open>The events that drive the bridge.\<close>

datatype BridgeEvent =
    EvAnalyze int string string bool AnalysisPriority
  | EvComplete int ActiveAnalysis "FileAnalysisResult Settled" "FileAnalysisResult Settled"
  | EvShutdown

fun bridgeStep ::
  "(FileAnalysisResult \<Rightarrow> int) \<Rightarrow> (string \<Rightarrow> string) \<Rightarrow> BridgeEvent \<Rightarrow> AnalysisBridge
     \<Rightarrow> AnalysisBridge option"
where
  "bridgeStep est computeHash (EvAnalyze now u c f p) s = Some (analyzeFile computeHash now u c f p s)"
| "bridgeStep est computeHash (EvComplete now a t x) s =
     (if a \<in> set (running s) then executeAnalysis est computeHash now a t x s else Some s)"
| "bridgeStep est computeHash EvShutdown s = Some (shutdown s)"

text \<open>A run of events; \<open>None\<close> when some step never returns.\<close>

fun runEvents ::
  "(FileAnalysisResult \<Rightarrow> int) \<Rightarrow> (string \<Rightarrow> string) \<Rightarrow> BridgeEvent list \<Rightarrow> AnalysisBridge
     \<Rightarrow> AnalysisBridge option"
where
  "runEvents est computeHash [] s = Some s"
| "runEvents est computeHash (ev # evs) s =
     (case bridgeStep est computeHash ev s of
        None \<Rightarrow> None
      | Some s1 \<Rightarrow> runEvents est computeHash evs s1)"

section \<open>OxcIntegration: exit codes and output parsing\<close>

text \<open>
  Source: \<^verbatim>\<open>integrations/oxc.ts\<close>. A raw diagnostic as the interface \<^verbatim>\<open>OxcRawDiagnostic\<close>
  declares it; the fix payload is kept as its JSON text.
\<close>

record OxcRawDiagnostic =
  filename :: "string option"
  raw_message :: string
  raw_severity :: string
  rule_id :: "string option"
  ruleId :: "string option"
  start_pos :: "(int \<times> int) option"
  end_pos :: "(int \<times> int) option"
  raw_fix :: "string option"
  raw_help :: "string option"

text \<open>\<^verbatim>\<open>if (raw.help)\<close> is a truthiness test: an empty help text is not attached.\<close>

definition convertDiagnostic :: "string \<Rightarrow> int \<Rightarrow> OxcRawDiagnostic \<Rightarrow> TurbodiagnosticItem" where
  "convertDiagnostic u t raw =
     (let dat = (case raw_fix raw of Some f \<Rightarrow> [(''fix'', f)] | None \<Rightarrow> []) @
                (case raw_help raw of
                   Some h \<Rightarrow> if h \<noteq> [] then [(''help'', h)] else []
                 | None \<Rightarrow> [])
      in \<lparr> d_file = (case filename raw of Some f \<Rightarrow> f | None \<Rightarrow> u),
           line = (case start_pos raw of Some (l, c) \<Rightarrow> l | None \<Rightarrow> 1),
           column = (case start_pos raw of Some (l, c) \<Rightarrow> c | None \<Rightarrow> 1),
           endLine = map_option fst (end_pos raw),
           endColumn = map_option snd (end_pos raw),
           message = raw_message raw,
           severity = OxcIntegration_mapSeverity (raw_severity raw),
           source = Src_oxc,
           code = (case rule_id raw of Some r \<Rightarrow> Some r | None \<Rightarrow> ruleId raw),
           computeTimeMs = t,
           diagData = (if dat \<noteq> [] then Some dat else None) \<rparr>)"

text \<open>
  The \<^verbatim>\<open>close\<close> handler of \<^verbatim>\<open>runOxcWithStdin\<close>: the exit code (\<open>None\<close> when the child was
  ended by a signal), the collected stdout and stderr. \<open>Inr\<close> is \<^verbatim>\<open>resolve(stdout)\<close>, \<open>Inl\<close>
  is \<^verbatim>\<open>reject(new Error(...))\<close>.
\<close>

definition runOxcWithStdin :: "nat option \<Rightarrow> string \<Rightarrow> string \<Rightarrow> string + string" where
  "runOxcWithStdin exitCode out err =
     (if (case exitCode of None \<Rightarrow> False | Some n \<Rightarrow> n \<le> 1) then Inr out
      else if out \<noteq> [] then Inr out
      else Inl (''oxc exited with code ''
                 @ (case exitCode of None \<Rightarrow> ''null'' | Some n \<Rightarrow> showNat n)
                 @ '': '' @ take 500 err))"

definition isWhiteSpace :: "char \<Rightarrow> bool" where
  "isWhiteSpace c = ((of_char c :: nat) \<in> {9, 10, 11, 12, 13, 32, 160})"

definition trim :: "string \<Rightarrow> string" where
  "trim s = rev (dropWhile isWhiteSpace (rev (dropWhile isWhiteSpace s)))"

text \<open>
  \<^verbatim>\<open>parseOutput\<close>. \<^verbatim>\<open>JSON.parse\<close> with the \<^verbatim>\<open>Array.isArray\<close> wrapping is the parameter
  \<open>jsonParse\<close> (\<open>None\<close> when the \<^verbatim>\<open>try\<close> block throws); the line parser of the \<^verbatim>\<open>catch\<close>
  branch is the parameter \<open>parseFallback\<close>.
\<close>

definition parseOutput ::
  "(string \<Rightarrow> OxcRawDiagnostic list option)
     \<Rightarrow> (string \<Rightarrow> string \<Rightarrow> int \<Rightarrow> TurbodiagnosticItem list)
     \<Rightarrow> string \<Rightarrow> string \<Rightarrow> int \<Rightarrow> TurbodiagnosticItem list"
where
  "parseOutput jsonParse parseFallback u output t =
     (if trim output = [] then []
      else (case jsonParse output of
              Some items \<Rightarrow> map (convertDiagnostic u t) items
            | None \<Rightarrow> parseFallback u output t))"

text \<open>
  \<^verbatim>\<open>executeLint\<close> from the point where the child has closed: the result handed to the caller
  and the error it logged, if any.
\<close>

definition executeLint ::
  "(string \<Rightarrow> OxcRawDiagnostic list option)
     \<Rightarrow> (string \<Rightarrow> string \<Rightarrow> int \<Rightarrow> TurbodiagnosticItem list)
     \<Rightarrow> string \<Rightarrow> string \<Rightarrow> int \<Rightarrow> nat option \<Rightarrow> string \<Rightarrow> string
     \<Rightarrow> FileAnalysisResult \<times> string option"
where
  "executeLint jsonParse parseFallback u hash t exitCode out err =
     (case runOxcWithStdin exitCode out err of
        Inr output \<Rightarrow>
          (\<lparr> r_uri = u, diagnostics = parseOutput jsonParse parseFallback u output t,
             analysisTimeMs = t, cached = False, r_contentHash = hash \<rparr>, None)
      | Inl e \<Rightarrow>
          (\<lparr> r_uri = u, diagnostics = [], analysisTimeMs = t, cached = False,
             r_contentHash = hash \<rparr>, Some e))"

section \<open>TsgoIntegration: the pool of persistent workers\<close>

text \<open>
  Source: \<^verbatim>\<open>integrations/tsgo.ts\<close>. A worker is named by its pid (the spawner hands out
  fresh ones). \<open>stdoutListeners\<close> lists the \<^verbatim>\<open>'data'\<close> listeners attached to the worker's
  stdout, each named by the request whose \<^verbatim>\<open>onData\<close> closure it is.
\<close>

record TsgoProcess =
  pid :: nat
  busy :: bool
  activeFile :: "string option"
  requestCount :: nat
  stdoutListeners :: "nat list"
  hasPipes :: bool
  stdinBroken :: bool

record PendingRequest =
  p_uri :: string
  p_handle :: nat

datatype TsgoSettlement = TsgoResolved string | TsgoRejected string

record TsgoIntegration =
  pool :: "TsgoProcess list"
  pendingRequests :: "PendingRequest list"
  poolSize :: nat
  shuttingDown :: bool
  respawning :: bool
  timers :: "nat list"
  tsgoSettlements :: "(nat \<times> TsgoSettlement) list"
  nextPid :: nat
  spawnCount :: nat

text \<open>A promise settles once: \<^verbatim>\<open>resolve\<close> and \<^verbatim>\<open>reject\<close> after that do nothing.\<close>

definition settle :: "nat \<Rightarrow> TsgoSettlement \<Rightarrow> TsgoIntegration \<Rightarrow> TsgoIntegration" where
  "settle h outcome s =
     (if h \<in> fst ` set (tsgoSettlements s) then s
      else s\<lparr> tsgoSettlements := tsgoSettlements s @ [(h, outcome)] \<rparr>)"

definition updateProc ::
  "nat \<Rightarrow> (TsgoProcess \<Rightarrow> TsgoProcess) \<Rightarrow> TsgoIntegration \<Rightarrow> TsgoIntegration"
where
  "updateProc p f s = s\<lparr> pool := map (\<lambda>w. if pid w = p then f w else w) (pool s) \<rparr>"

definition spawnProcess :: "TsgoIntegration \<Rightarrow> TsgoProcess \<times> TsgoIntegration" where
  "spawnProcess s =
     (\<lparr> pid = nextPid s, busy = False, activeFile = None, requestCount = 0,
        stdoutListeners = [], hasPipes = True, stdinBroken = False \<rparr>,
      s\<lparr> nextPid := nextPid s + 1, spawnCount := spawnCount s + 1 \<rparr>)"

text \<open>
  \<^verbatim>\<open>sendToProcess\<close>: mark the worker busy; when the child has no stdin or stdout
  (\<open>hasPipes\<close> is false) mark it idle again, clear the timer and reject; otherwise attach the
  listener and write the request. When the write throws (\<open>stdinBroken\<close>), the listener is
  removed again, the timer cleared, the worker marked idle and the request rejected.
\<close>

definition sendToProcess :: "nat \<Rightarrow> PendingRequest \<Rightarrow> TsgoIntegration \<Rightarrow> TsgoIntegration" where
  "sendToProcess p pending s =
     (let h = p_handle pending;
          s1 = updateProc p
                 (\<lambda>w. w\<lparr> busy := True, activeFile := Some (p_uri pending),
                         requestCount := requestCount w + 1 \<rparr>) s
      in case find (\<lambda>w. pid w = p) (pool s) of
           None \<Rightarrow> s1
         | Some proc \<Rightarrow>
             if \<not> hasPipes proc
             then settle h (TsgoRejected ''tsgo process has no stdin/stdout'')
                    ((updateProc p (\<lambda>w. w\<lparr> busy := False, activeFile := None \<rparr>) s1)
                       \<lparr> timers := remove1 h (timers s1) \<rparr>)
             else if stdinBroken proc
             then settle h (TsgoRejected ''write failed'')
                    ((updateProc p (\<lambda>w. w\<lparr> busy := False, activeFile := None \<rparr>) s1)
                       \<lparr> timers := remove1 h (timers s1) \<rparr>)
             else updateProc p (\<lambda>w. w\<lparr> stdoutListeners := stdoutListeners w @ [h] \<rparr>) s1)"

text \<open>\<^verbatim>\<open>dispatchPending\<close>: the loop shifts one queued request per turn.\<close>

fun dispatchPendingLoop :: "PendingRequest list \<Rightarrow> TsgoIntegration \<Rightarrow> TsgoIntegration" where
  "dispatchPendingLoop [] s = s\<lparr> pendingRequests := [] \<rparr>"
| "dispatchPendingLoop (pending # rest) s =
     (case find (\<lambda>w. \<not> busy w) (pool s) of
        None \<Rightarrow> s\<lparr> pendingRequests := pending # rest \<rparr>
      | Some idle \<Rightarrow>
          dispatchPendingLoop rest (sendToProcess (pid idle) pending (s\<lparr> pendingRequests := rest \<rparr>)))"

definition dispatchPending :: "TsgoIntegration \<Rightarrow> TsgoIntegration" where
  "dispatchPending s = dispatchPendingLoop (pendingRequests s) s"

text \<open>\<^verbatim>\<open>dispatch\<close>: arm the timer, then send to an idle worker or queue.\<close>

definition dispatch :: "PendingRequest \<Rightarrow> TsgoIntegration \<Rightarrow> TsgoIntegration" where
  "dispatch pending s =
     (let s1 = s\<lparr> timers := timers s @ [p_handle pending] \<rparr> in
      case find (\<lambda>w. \<not> busy w) (pool s1) of
        Some idle \<Rightarrow> sendToProcess (pid idle) pending s1
      | None \<Rightarrow> s1\<lparr> pendingRequests := pendingRequests s1 @ [pending] \<rparr>)"

text \<open>
  The timer callback set up by \<^verbatim>\<open>dispatch\<close>: it takes the request out of
  \<^verbatim>\<open>pendingRequests\<close> when it is still there and rejects it. It does nothing else.
\<close>

definition timeoutError :: string where
  "timeoutError = ''tsgo request timed out''"

definition onTimeout :: "nat \<Rightarrow> TsgoIntegration \<Rightarrow> TsgoIntegration" where
  "onTimeout h s =
     (if h \<notin> set (timers s) then s
      else settle h (TsgoRejected timeoutError)
             (s\<lparr> timers := remove1 h (timers s),
                 pendingRequests := snd (spliceFirst (\<lambda>q. p_handle q = h) (pendingRequests s)) \<rparr>))"

text \<open>
  One \<^verbatim>\<open>onData\<close> listener receiving a complete response line: detach itself, clear the
  timer, mark the worker idle, resolve, dispatch what is queued.
\<close>

definition listenerFire :: "nat \<Rightarrow> string \<Rightarrow> TsgoIntegration \<Rightarrow> nat \<Rightarrow> TsgoIntegration" where
  "listenerFire p response s h =
     dispatchPending
       (settle h (TsgoResolved response)
          ((updateProc p
              (\<lambda>w. w\<lparr> busy := False, activeFile := None,
                      stdoutListeners := remove1 h (stdoutListeners w) \<rparr>) s)
           \<lparr> timers := remove1 h (timers s) \<rparr>))"

text \<open>A response line on the stdout of worker \<open>p\<close> reaches every listener attached to it.\<close>

definition onData :: "nat \<Rightarrow> string \<Rightarrow> TsgoIntegration \<Rightarrow> TsgoIntegration" where
  "onData p response s =
     foldl (listenerFire p response) s
       (concat (map stdoutListeners (filter (\<lambda>w. pid w = p) (pool s))))"

text \<open>
  The \<^verbatim>\<open>exit\<close> handler installed by \<^verbatim>\<open>spawnProcess\<close>. The listeners of a busy worker are
  removed and the worker is taken out of the pool; a replacement is spawned under the
  \<^verbatim>\<open>respawning\<close> guard and the queued requests are dispatched. \<open>spawnThrows\<close> tells whether
  the \<^verbatim>\<open>spawn\<close> call of the replacement throws.
\<close>

definition onExit :: "nat \<Rightarrow> bool \<Rightarrow> TsgoIntegration \<Rightarrow> TsgoIntegration" where
  "onExit p spawnThrows s =
     (let s0 = updateProc p
                 (\<lambda>w. if busy w
                      then w\<lparr> stdoutListeners := [], busy := False, activeFile := None \<rparr>
                      else w) s;
          s1 = s0\<lparr> pool := filter (\<lambda>w. pid w \<noteq> p) (pool s0) \<rparr> in
      if \<not> shuttingDown s1 \<and> \<not> respawning s1 \<and> length (pool s1) < poolSize s1
      then (if spawnThrows then s1\<lparr> respawning := False \<rparr>
            else (case spawnProcess (s1\<lparr> respawning := True \<rparr>) of
                    (replacement, s2) \<Rightarrow>
                      (dispatchPending (s2\<lparr> pool := pool s2 @ [replacement] \<rparr>))
                        \<lparr> respawning := False \<rparr>))
      else s1)"

text \<open>
  \<^verbatim>\<open>shutdown\<close>, up to its \<^verbatim>\<open>await\<close>: a second call returns at once; otherwise the flag is
  set and every queued request has its timer cleared and is rejected. The workers are then
  killed, which shows as exit events; \<open>shutdownDone\<close> is the part after the \<^verbatim>\<open>await\<close>, which
  empties the pool and resets the flag.
\<close>

definition tsgoShutdownError :: string where
  "tsgoShutdownError = ''TsgoIntegration shutting down''"

definition tsgoShutdown :: "TsgoIntegration \<Rightarrow> TsgoIntegration" where
  "tsgoShutdown s =
     (if shuttingDown s then s
      else (foldl (\<lambda>st r. settle (p_handle r) (TsgoRejected tsgoShutdownError)
                           (st\<lparr> timers := remove1 (p_handle r) (timers st) \<rparr>))
              (s\<lparr> shuttingDown := True \<rparr>) (pendingRequests s))
             \<lparr> pendingRequests := [] \<rparr>)"

definition shutdownDone :: "TsgoIntegration \<Rightarrow> TsgoIntegration" where
  "shutdownDone s = s\<lparr> pool := [], shuttingDown := False \<rparr>"

text \<open>
  The events that drive the pool: a request is dispatched, a response line arrives on the
  stdout of a worker, a worker exits, the timer of a request fires, \<^verbatim>\<open>shutdown\<close> is called,
  \<^verbatim>\<open>shutdown\<close> resumes after its \<^verbatim>\<open>await\<close>.
\<close>

datatype TsgoEvent =
    TsDispatch PendingRequest
  | TsData nat string
  | TsExit nat bool
  | TsTimeout nat
  | TsShutdown
  | TsShutdownDone

fun tsgoStep :: "TsgoEvent \<Rightarrow> TsgoIntegration \<Rightarrow> TsgoIntegration" where
  "tsgoStep (TsDispatch r) s = dispatch r s"
| "tsgoStep (TsData p response) s = onData p response s"
| "tsgoStep (TsExit p spawnThrows) s = onExit p spawnThrows s"
| "tsgoStep (TsTimeout h) s = onTimeout h s"
| "tsgoStep TsShutdown s = tsgoShutdown s"
| "tsgoStep TsShutdownDone s = shutdownDone s"

definition tsgoRun :: "TsgoEvent list \<Rightarrow> TsgoIntegration \<Rightarrow> TsgoIntegration" where
  "tsgoRun evs s = foldl (\<lambda>st ev. tsgoStep ev st) s evs"

text \<open>The requests whose \<^verbatim>\<open>onData\<close> listener is attached to the stdout of some worker.\<close>

definition listening :: "TsgoIntegration \<Rightarrow> nat list" where
  "listening s = concat (map stdoutListeners (pool s))"

text \<open>
  Request \<open>h\<close> is in flight on worker \<open>p\<close>: the worker is busy and carries the listener of
  \<open>h\<close>, no other worker does, the timer of \<open>h\<close> is armed, its promise is not settled and it
  is not waiting in \<^verbatim>\<open>pendingRequests\<close>.
\<close>

definition inFlightOn :: "nat \<Rightarrow> nat \<Rightarrow> TsgoIntegration \<Rightarrow> bool" where
  "inFlightOn h p s \<longleftrightarrow>
     list_ex (\<lambda>w. pid w = p \<and> busy w \<and> h \<in> set (stdoutListeners w)) (pool s) \<and>
     list_all (\<lambda>w. h \<in> set (stdoutListeners w) \<longrightarrow> pid w = p) (pool s) \<and>
     h \<in> set (timers s) \<and>
     h \<notin> fst ` set (tsgoSettlements s) \<and>
     h \<notin> p_handle ` set (pendingRequests s)"

text \<open>
  Request \<open>h\<close> is left to its timer: the timer is armed and the promise is not settled, but
  no listener of \<open>h\<close> is attached to any worker and \<open>h\<close> is not queued, so that only the
  timer can settle it.
\<close>

definition leftToTimer :: "nat \<Rightarrow> TsgoIntegration \<Rightarrow> bool" where
  "leftToTimer h s \<longleftrightarrow>
     h \<in> set (timers s) \<and> h \<notin> fst ` set (tsgoSettlements s) \<and> h \<notin> set (listening s) \<and>
     h \<notin> p_handle ` set (pendingRequests s)"

definition awaitsTimer :: "nat \<Rightarrow> TsgoIntegration \<Rightarrow> bool" where
  "awaitsTimer h s \<longleftrightarrow>
     h \<in> set (timers s) \<and> h \<notin> fst ` set (tsgoSettlements s) \<and> h \<notin> set (listening s)"

section \<open>TypeCache: dependency graph and cascade invalidation\<close>

text \<open>
  Source: \<^verbatim>\<open>cache/typeCache.ts\<close>. The two \<^verbatim>\<open>Map<string, Set<string>>\<close> are association
  lists of key and members, both in insertion order.
\<close>

record 'a TypeCache =
  tcCache :: "'a FileCache"
  dependsOn :: "(string \<times> string list) list"
  dependedOnBy :: "(string \<times> string list) list"

definition newTypeCache :: "int \<Rightarrow> int \<Rightarrow> int \<Rightarrow> 'a TypeCache" where
  "newTypeCache cfgMaxEntries cfgMaxSizeMb cfgTtlSeconds =
     \<lparr> tcCache = newFileCache cfgMaxEntries cfgMaxSizeMb cfgTtlSeconds,
       dependsOn = [], dependedOnBy = [] \<rparr>"

text \<open>\<^verbatim>\<open>Set.prototype.add\<close> on the member list stored under a key.\<close>

definition addMember :: "string \<Rightarrow> string \<Rightarrow> (string \<times> string list) list \<Rightarrow> (string \<times> string list) list"
where
  "addMember k m g =
     (case map_of g k of
        None \<Rightarrow> map_set k [m] g
      | Some ms \<Rightarrow> if m \<in> set ms then g else map_set k (ms @ [m]) g)"

definition addDependency :: "string \<Rightarrow> string \<Rightarrow> 'a TypeCache \<Rightarrow> 'a TypeCache" where
  "addDependency fromUri toUri tc =
     tc\<lparr> dependsOn := addMember fromUri toUri (dependsOn tc),
         dependedOnBy := addMember toUri fromUri (dependedOnBy tc) \<rparr>"

text \<open>
  \<^verbatim>\<open>clearDependencies\<close>: \<open>fromUri\<close> is taken out of the member list of every file it
  imports, a list that becomes empty is deleted with its key, and the forward entry of
  \<open>fromUri\<close> is deleted.
\<close>

definition removeMember ::
  "string \<Rightarrow> string \<Rightarrow> (string \<times> string list) list \<Rightarrow> (string \<times> string list) list"
where
  "removeMember k m g =
     (case map_of g k of
        None \<Rightarrow> g
      | Some ms \<Rightarrow>
          if removeAll m ms = [] then map_delete k g else map_set k (removeAll m ms) g)"

definition clearDependencies :: "string \<Rightarrow> 'a TypeCache \<Rightarrow> 'a TypeCache" where
  "clearDependencies fromUri tc =
     (case map_of (dependsOn tc) fromUri of
        None \<Rightarrow> tc
      | Some deps \<Rightarrow>
          tc\<lparr> dependedOnBy := foldl (\<lambda>g toUri. removeMember toUri fromUri g) (dependedOnBy tc) deps,
              dependsOn := map_delete fromUri (dependsOn tc) \<rparr>)"

definition TypeCache_set ::
  "('a \<Rightarrow> int) \<Rightarrow> int \<Rightarrow> string \<Rightarrow> string \<Rightarrow> 'a \<Rightarrow> 'a TypeCache \<Rightarrow> 'a TypeCache option"
where
  "TypeCache_set est now u hash types tc =
     (case FileCache_set est now u hash types (tcCache tc) of
        None \<Rightarrow> None
      | Some c \<Rightarrow> Some (tc\<lparr> tcCache := c \<rparr>))"

definition dependentsOf :: "(string \<times> string list) list \<Rightarrow> string \<Rightarrow> string list" where
  "dependentsOf g current = (case map_of g current of None \<Rightarrow> [] | Some ds \<Rightarrow> ds)"

text \<open>
  The \<^verbatim>\<open>while (queue.length > 0)\<close> loop of \<^verbatim>\<open>invalidateWithDependents\<close>: the work queue,
  the set \<^verbatim>\<open>invalidated\<close> in insertion order, and the cache.
\<close>

function bfsLoop ::
  "(string \<times> string list) list \<Rightarrow> string list \<Rightarrow> string list \<Rightarrow> 'a FileCache
     \<Rightarrow> string list \<times> 'a FileCache"
where
  "bfsLoop g [] invalidated c = (invalidated, c)"
| "bfsLoop g (current # rest) invalidated c =
     (if current \<in> set invalidated then bfsLoop g rest invalidated c
      else bfsLoop g
             (rest @ filter (\<lambda>d. d \<notin> set (invalidated @ [current])) (dependentsOf g current))
             (invalidated @ [current])
             (snd (FileCache_invalidate current c)))"
  by pat_completeness auto
termination
proof (relation
    "(\<lambda>(g, q, invalidated, c). card ((\<Union>(set ` snd ` set g) \<union> set q) - set invalidated))
       <*mlex*> measure (\<lambda>(g, q, invalidated, c). length q)")
  show "wf ((\<lambda>(g, q, invalidated, c). card ((\<Union>(set ` snd ` set g) \<union> set q) - set invalidated))
       <*mlex*> measure (\<lambda>(g :: (string \<times> string list) list, q :: string list,
                            invalidated :: string list, c :: 'a FileCache). length q))"
    by (simp add: wf_mlex)
next
  fix g :: "(string \<times> string list) list" and current :: string and rest invalidated :: "string list"
    and c :: "'a FileCache"
  assume "current \<in> set invalidated"
  then have "(\<Union>(set ` snd ` set g) \<union> set rest) - set invalidated
             = (\<Union>(set ` snd ` set g) \<union> set (current # rest)) - set invalidated"
    by auto
  then show "((g, rest, invalidated, c), (g, current # rest, invalidated, c))
      \<in> (\<lambda>(g, q, invalidated, c). card ((\<Union>(set ` snd ` set g) \<union> set q) - set invalidated))
          <*mlex*> measure (\<lambda>(g, q, invalidated, c). length q)"
    by (intro mlex_leq) simp_all
next
  fix g :: "(string \<times> string list) list" and current :: string and rest invalidated :: "string list"
    and c :: "'a FileCache"
  assume fresh: "current \<notin> set invalidated"
  let ?U = "\<Union>(set ` snd ` set g)"
  have deps: "set (dependentsOf g current) \<subseteq> ?U"
  proof (cases "map_of g current")
    case None
    then show ?thesis by (simp add: dependentsOf_def)
  next
    case (Some ds)
    then have "(current, ds) \<in> set g" by (rule map_of_SomeD)
    then have "set ds \<subseteq> ?U" by force
    with Some show ?thesis by (simp add: dependentsOf_def)
  qed
  have "(?U \<union> set (rest @ filter (\<lambda>d. d \<notin> set (invalidated @ [current])) (dependentsOf g current)))
          - set (invalidated @ [current])
        \<subset> (?U \<union> set (current # rest)) - set invalidated"
    using fresh deps by auto
  moreover have "finite ((?U \<union> set (current # rest)) - set invalidated)"
    by auto
  ultimately have "card ((?U \<union> set (rest @ filter (\<lambda>d. d \<notin> set (invalidated @ [current]))
                      (dependentsOf g current))) - set (invalidated @ [current]))
                 < card ((?U \<union> set (current # rest)) - set invalidated)"
    by (rule psubset_card_mono[rotated])
  then show "((g, rest @ filter (\<lambda>d. d \<notin> set (invalidated @ [current])) (dependentsOf g current),
        invalidated @ [current], snd (FileCache_invalidate current c)),
       (g, current # rest, invalidated, c))
      \<in> (\<lambda>(g, q, invalidated, c). card ((\<Union>(set ` snd ` set g) \<union> set q) - set invalidated))
          <*mlex*> measure (\<lambda>(g, q, invalidated, c). length q)"
    by (intro mlex_less) simp
qed

definition invalidateWithDependents :: "string \<Rightarrow> 'a TypeCache \<Rightarrow> string list \<times> 'a TypeCache" where
  "invalidateWithDependents u tc =
     (case bfsLoop (dependedOnBy tc) [u] [] (tcCache tc) of
        (invalidated, c) \<Rightarrow> (invalidated, tc\<lparr> tcCache := c \<rparr>))"

text \<open>The reverse-dependency edges: \<open>(a, b)\<close> when \<open>b\<close> is listed under \<open>a\<close> in \<^verbatim>\<open>dependedOnBy\<close>.\<close>

definition edgesOf :: "(string \<times> string list) list \<Rightarrow> (string \<times> string) set" where
  "edgesOf g = {(a, b). b \<in> set (dependentsOf g a)}"

definition reverseEdges :: "'a TypeCache \<Rightarrow> (string \<times> string) set" where
  "reverseEdges tc = edgesOf (dependedOnBy tc)"

section \<open>Example inputs\<close>

text \<open>A size estimator that gives every value ten bytes.\<close>

definition tenBytes :: "'a \<Rightarrow> int" where
  "tenBytes d = 10"

section \<open>Invariants\<close>

text \<open>
  The cache's own bookkeeping: the keys of the map are distinct and the byte counter is the
  sum of the sizes of the stored entries.
\<close>

definition cache_inv :: "'a FileCache \<Rightarrow> bool" where
  "cache_inv c \<longleftrightarrow>
     distinct (map fst (entries c)) \<and>
     totalSizeBytes c = sum_list (map (\<lambda>p. sizeBytes (snd p)) (entries c))"
definition emptyUriCache :: "nat FileCache" where
  "emptyUriCache =
     (newFileCache 1 10 300)
       \<lparr> entries := [([], \<lparr> data = 1, contentHash = ''h1'', createdAt = 1000, accessCount = 0,
                           lastAccessedAt = 1000, sizeBytes = 10 \<rparr>)],
         totalSizeBytes := 10 \<rparr>"

definition emptyUriCacheFull :: "nat FileCache" where
  "emptyUriCacheFull =
     emptyUriCache
       \<lparr> entries := entries emptyUriCache @
            [(''a'', \<lparr> data = 2, contentHash = ''h2'', createdAt = 2000, accessCount = 0,
                       lastAccessedAt = 2000, sizeBytes = 10 \<rparr>)],
         totalSizeBytes := 20 \<rparr>"

text \<open>
  The shape of the cache while \<^verbatim>\<open>set\<close> evicts: the entry just inserted is last in the map,
  every other entry has a non-empty key and was accessed no later, and the byte counter
  is exact.
\<close>

definition keepsLast :: "string \<Rightarrow> 'a CacheEntry \<Rightarrow> 'a FileCache \<Rightarrow> bool" where
  "keepsLast u e c \<longleftrightarrow>
     (\<exists>pre. entries c = pre @ [(u, e)] \<and> distinct (map fst pre) \<and>
        (\<forall>p\<in>set pre. fst p \<noteq> [] \<and> fst p \<noteq> u \<and> lastAccessedAt (snd p) \<le> lastAccessedAt e) \<and>
        totalSizeBytes c = sum_list (map (\<lambda>p. sizeBytes (snd p)) pre) + sizeBytes e)"

definition noEmptyKey :: "'a FileCache \<Rightarrow> bool" where
  "noEmptyKey c \<longleftrightarrow> [] \<notin> fst ` set (entries c)"

definition accessedBy :: "int \<Rightarrow> 'a FileCache \<Rightarrow> bool" where
  "accessedBy now c \<longleftrightarrow> (\<forall>p\<in>set (entries c). lastAccessedAt (snd p) \<le> now)"

text \<open>A stand-in for the content hash (only equality of hashes matters to the cache).\<close>

definition exampleHash :: "string \<Rightarrow> string" where
  "exampleHash c = ''#'' @ c"

definition exampleDiag :: "DiagnosticSource \<Rightarrow> string \<Rightarrow> TurbodiagnosticItem" where
  "exampleDiag src msg =
     \<lparr> d_file = ''file:///a.ts'', line = 1, column = 2, endLine = None, endColumn = None,
       message = msg, severity = Sev_error, source = src, code = None, computeTimeMs = 5,
       diagData = None \<rparr>"

definition exampleToolResult :: "DiagnosticSource \<Rightarrow> string \<Rightarrow> FileAnalysisResult" where
  "exampleToolResult src msg =
     \<lparr> r_uri = ''file:///a.ts'', diagnostics = [exampleDiag src msg], analysisTimeMs = 5,
       cached = False, r_contentHash = exampleHash ''x'' \<rparr>"

text \<open>
  A bridge whose cache is configured with \<^verbatim>\<open>maxEntries: 100\<close>, \<^verbatim>\<open>maxSizeMb: 1\<close> and
  \<^verbatim>\<open>ttlSeconds: 300\<close>, with both tools enabled and four analysis slots.
\<close>

definition exampleBridge :: AnalysisBridge where
  "exampleBridge = newAnalysisBridge (newFileCache 100 1 300) True True True 4"

definition exampleActive :: ActiveAnalysis where
  "exampleActive =
     \<lparr> item = \<lparr> uri = ''file:///a.ts'', content = ''x'', priority = Open, force = False,
                handle = 0, enqueuedAt = 1000 \<rparr>,
       startTime = 1000 \<rparr>"

text \<open>
  Every promise the bridge has handed out: those of the queued items, of the running
  analyses, and those already settled.
\<close>

definition allHandles :: "AnalysisBridge \<Rightarrow> nat list" where
  "allHandles s =
     map handle (queue s) @ map (\<lambda>a. handle (item a)) (running s) @ map fst (settlements s)"

text \<open>
  The bridge invariant: one queued item per uri; every promise is in exactly one place
  (queued, running or settled once); the queue holds items only while all slots are taken.
\<close>

definition bridge_inv :: "AnalysisBridge \<Rightarrow> bool" where
  "bridge_inv s \<longleftrightarrow>
     distinct (map uri (queue s)) \<and>
     distinct (allHandles s) \<and>
     (\<forall>h\<in>set (allHandles s). h < nextHandle s) \<and>
     \<not> processing s \<and>
     (queue s \<noteq> [] \<longrightarrow> maxConcurrentAnalyses s \<le> activeAnalyses s)"

text \<open>
  A bridge with a single analysis slot, and the events of a session: the file
  \<^verbatim>\<open>u.ts\<close> is requested with content \<^verbatim>\<open>c2\<close> and starts running, \<^verbatim>\<open>b.ts\<close> and then \<^verbatim>\<open>u.ts\<close>
  with content \<^verbatim>\<open>c1\<close> are requested and wait in the queue.
\<close>

definition singleSlotBridge :: AnalysisBridge where
  "singleSlotBridge = newAnalysisBridge (newFileCache 100 1 300) True True True 1"

definition sessionEvents :: "BridgeEvent list" where
  "sessionEvents =
     [EvAnalyze 1000 ''file:///u.ts'' ''c2'' False Open,
      EvAnalyze 1001 ''file:///b.ts'' ''y'' False Open,
      EvAnalyze 1002 ''file:///u.ts'' ''c1'' False Open]"

definition firstRunning :: ActiveAnalysis where
  "firstRunning = \<lparr> item = newItem 1000 0 ''file:///u.ts'' ''c2'' False Open, startTime = 1000 \<rparr>"

text \<open>The same session, continued: the running analysis of \<^verbatim>\<open>u.ts\<close> completes.\<close>

definition sessionEventsCompleted :: "BridgeEvent list" where
  "sessionEventsCompleted =
     sessionEvents @
     [EvComplete 1500 firstRunning (Fulfilled (exampleToolResult Src_tsgo ''m1''))
        (Fulfilled (exampleToolResult Src_oxc ''m2''))]"

text \<open>The state of the single-slot bridge after the three requests of the session.\<close>

definition sessionState :: AnalysisBridge where
  "sessionState =
     analyzeFile exampleHash 1002 ''file:///u.ts'' ''c1'' False Open
       (analyzeFile exampleHash 1001 ''file:///b.ts'' ''y'' False Open
          (analyzeFile exampleHash 1000 ''file:///u.ts'' ''c2'' False Open singleSlotBridge))"

text \<open>Projections used to read a final state.\<close>

definition queueAndSettled :: "AnalysisBridge \<Rightarrow> QueueItem list \<times> nat list" where
  "queueAndSettled s = (queue s, map fst (settlements s))"

definition runningAndSettled :: "AnalysisBridge \<Rightarrow> nat list \<times> nat list" where
  "runningAndSettled s = (map (\<lambda>a. handle (item a)) (running s), map fst (settlements s))"

text \<open>That bridge after a first request for \<^verbatim>\<open>a.ts\<close> missed the cache and started.\<close>

definition afterFirstCall :: AnalysisBridge where
  "afterFirstCall = analyzeFile exampleHash 1000 ''file:///a.ts'' ''x'' False Open exampleBridge"

text \<open>
  A message of 1048576 characters, as many as the byte limit of that cache, and the
  events of two successive requests for \<^verbatim>\<open>a.ts\<close> where the analysis of the first completes
  with a tsgo diagnostic that carries this message and no findings of oxc.
\<close>

definition longMessage :: string where
  "longMessage = replicate 1048576 CHR ''x''"

definition noFindings :: FileAnalysisResult where
  "noFindings =
     \<lparr> r_uri = ''file:///a.ts'', diagnostics = [], analysisTimeMs = 5, cached = False,
       r_contentHash = exampleHash ''x'' \<rparr>"

definition largeResultEvents :: "BridgeEvent list" where
  "largeResultEvents =
     [EvAnalyze 1000 ''file:///a.ts'' ''x'' False Open,
      EvComplete 1500 exampleActive (Fulfilled (exampleToolResult Src_tsgo longMessage))
        (Fulfilled noFindings),
      EvAnalyze 1600 ''file:///a.ts'' ''x'' False Open]"

text \<open>The merged result of that analysis: the one diagnostic, 500 ms, not from the cache.\<close>

definition largeMerged :: FileAnalysisResult where
  "largeMerged =
     \<lparr> r_uri = ''file:///a.ts'', diagnostics = [exampleDiag Src_tsgo longMessage],
       analysisTimeMs = 500, cached = False, r_contentHash = ''#x'' \<rparr>"

text \<open>
  Two diagnostics that differ in file, line, column and message: one from tsgo in the file
  \<^verbatim>\<open>a\<close> at 1:2 with message \<^verbatim>\<open>3:x\<close>, one from oxc in the file \<^verbatim>\<open>a:1\<close> at 2:3 with
  message \<^verbatim>\<open>x\<close>.
\<close>

definition collidingTsgoDiag :: TurbodiagnosticItem where
  "collidingTsgoDiag =
     \<lparr> d_file = ''a'', line = 1, column = 2, endLine = None, endColumn = None,
       message = ''3:x'', severity = Sev_error, source = Src_tsgo, code = None,
       computeTimeMs = 5, diagData = None \<rparr>"

definition collidingOxcDiag :: TurbodiagnosticItem where
  "collidingOxcDiag =
     \<lparr> d_file = ''a:1'', line = 2, column = 3, endLine = None, endColumn = None,
       message = ''x'', severity = Sev_warning, source = Src_oxc, code = None,
       computeTimeMs = 5, diagData = None \<rparr>"

text \<open>
  The number read back from a string of decimal digits, the inverse of \<open>showNat\<close>.
\<close>

fun digitsValue :: "string \<Rightarrow> nat" where
  "digitsValue cs = foldl (\<lambda>a c. 10 * a + (of_char c - 48)) 0 cs"

text \<open>The fields the documentation of \<^verbatim>\<open>deduplicateDiagnostics\<close> names as the identity.\<close>

definition diagIdentity :: "TurbodiagnosticItem \<Rightarrow> string \<times> int \<times> int \<times> string" where
  "diagIdentity d = (d_file d, line d, column d, message d)"

text \<open>
  The loop invariant of \<^verbatim>\<open>deduplicateDiagnostics\<close> once the diagnostics \<open>ds\<close> are
  processed: the map \<^verbatim>\<open>seen\<close> is keyed by \<open>diagKey\<close>, holds exactly the keys met so far
  and only diagnostics met so far, and holds a tsgo diagnostic under every key that some
  tsgo diagnostic had.
\<close>

definition dedupInv ::
  "TurbodiagnosticItem list \<Rightarrow> (string \<times> TurbodiagnosticItem) list \<Rightarrow> bool"
where
  "dedupInv ds seen \<longleftrightarrow>
     distinct (map fst seen) \<and>
     (\<forall>p\<in>set seen. fst p = diagKey (snd p)) \<and>
     fst ` set seen = diagKey ` set ds \<and>
     snd ` set seen \<subseteq> set ds \<and>
     (\<forall>x\<in>set ds. source x = Src_tsgo \<longrightarrow>
        (\<exists>y. map_of seen (diagKey x) = Some y \<and> source y = Src_tsgo))"

text \<open>A pool of one idle worker and a request for \<^verbatim>\<open>a.ts\<close>.\<close>

definition exampleWorker :: TsgoProcess where
  "exampleWorker = \<lparr> pid = 1, busy = False, activeFile = None, requestCount = 0,
                     stdoutListeners = [], hasPipes = True, stdinBroken = False \<rparr>"

definition examplePool :: TsgoIntegration where
  "examplePool = \<lparr> pool = [exampleWorker], pendingRequests = [], poolSize = 1,
                   shuttingDown = False, respawning = False, timers = [],
                   tsgoSettlements = [], nextPid = 2, spawnCount = 1 \<rparr>"

definition exampleRequest :: PendingRequest where
  "exampleRequest = \<lparr> p_uri = ''file:///a.ts'', p_handle = 0 \<rparr>"

text \<open>
  The graph of a scenario with a cycle: \<^verbatim>\<open>a\<close> and \<^verbatim>\<open>b\<close> import \<^verbatim>\<open>lib\<close>, \<^verbatim>\<open>lib\<close> imports
  \<^verbatim>\<open>a\<close>, and \<^verbatim>\<open>c\<close> imports nothing and is imported by nothing; all four are cached.
\<close>

definition exampleEntry :: "nat CacheEntry" where
  "exampleEntry = \<lparr> data = 0, contentHash = ''h'', createdAt = 1000, accessCount = 0,
                    lastAccessedAt = 1000, sizeBytes = 10 \<rparr>"

definition exampleTypeCache :: "nat TypeCache" where
  "exampleTypeCache =
     addDependency ''lib'' ''a''
       (addDependency ''b'' ''lib''
          (addDependency ''a'' ''lib''
             ((newTypeCache 100 1 300)
                \<lparr> tcCache := (newFileCache 100 1 300)
                     \<lparr> entries := [(''a'', exampleEntry), (''b'', exampleEntry),
                                    (''lib'', exampleEntry), (''c'', exampleEntry)],
                       totalSizeBytes := 40 \<rparr> \<rparr>)))"

text \<open>
  A linter run that reports two findings: the text on stdout, what \<^verbatim>\<open>JSON.parse\<close> makes
  of it, and a fallback parser that finds nothing.
\<close>

definition exampleOxcOutput :: string where
  "exampleOxcOutput = ''[{no-debugger at 3:1}, {no-unused-vars at 7:9}]''"

definition exampleFindings :: "OxcRawDiagnostic list" where
  "exampleFindings =
     [\<lparr> filename = None, raw_message = ''Unexpected debugger statement'',
        raw_severity = ''error'', rule_id = Some ''no-debugger'', ruleId = None,
        start_pos = Some (3, 1), end_pos = Some (3, 10), raw_fix = None, raw_help = None \<rparr>,
      \<lparr> filename = None, raw_message = ''x is declared but never used'',
        raw_severity = ''warning'', rule_id = None, ruleId = Some ''no-unused-vars'',
        start_pos = Some (7, 9), end_pos = None, raw_fix = None,
        raw_help = Some ''remove the declaration'' \<rparr>]"

definition exampleJsonParse :: "string \<Rightarrow> OxcRawDiagnostic list option" where
  "exampleJsonParse s = (if s = exampleOxcOutput then Some exampleFindings else None)"

definition noFallback :: "string \<Rightarrow> string \<Rightarrow> int \<Rightarrow> TurbodiagnosticItem list" where
  "noFallback u output t = []"

text \<open>A cache with a time-to-live of zero that holds the value 7, stored at time 1000.\<close>

definition ttlZeroCache :: "nat FileCache" where
  "ttlZeroCache =
     (newFileCache 100 10 0)
       \<lparr> entries := [(''u'', \<lparr> data = 7, contentHash = ''h'', createdAt = 1000, accessCount = 0,
                              lastAccessedAt = 1000, sizeBytes = 10 \<rparr>)],
         totalSizeBytes := 10 \<rparr>"

text \<open>A second request, for \<^verbatim>\<open>b.ts\<close>.\<close>

definition secondRequest :: PendingRequest where
  "secondRequest = \<lparr> p_uri = ''file:///b.ts'', p_handle = 1 \<rparr>"

text \<open>
  The pool after two requests: the only worker is busy with request 0, request 1 waits in
  \<^verbatim>\<open>pendingRequests\<close>.
\<close>

definition busyPool :: TsgoIntegration where
  "busyPool = dispatch secondRequest (dispatch exampleRequest examplePool)"

section \<open>FileCache: association-list facts\<close>

lemma distinct_map_delete: "distinct (map fst xs) \<Longrightarrow> distinct (map fst (map_delete k xs))"
  by (simp add: map_delete_def distinct_map_filter)

lemma map_of_map_delete: "map_of (map_delete k xs) k' = (if k' = k then None else map_of xs k')"
  by (induction xs) (auto simp: map_delete_def)

lemma map_delete_absent: "map_of xs k = None \<Longrightarrow> map_delete k xs = xs"
  by (auto simp: map_delete_def filter_id_conv map_of_eq_None_iff)

lemma length_map_delete_present:
  "distinct (map fst xs) \<Longrightarrow> map_of xs k = Some e \<Longrightarrow> Suc (length (map_delete k xs)) = length xs"
proof (induction xs)
  case Nil
  then show ?case by simp
next
  case (Cons p xs)
  show ?case
  proof (cases "fst p = k")
    case True
    with Cons.prems have "map_of xs k = None" by (auto simp: map_of_eq_None_iff)
    then have "map_delete k xs = xs" by (rule map_delete_absent)
    with True show ?thesis by (simp add: map_delete_def)
  next
    case False
    with Cons show ?thesis by (cases p) (auto simp: map_delete_def)
  qed
qed

lemma sum_map_delete:
  "distinct (map fst xs) \<Longrightarrow> map_of xs k = Some e \<Longrightarrow>
   sum_list (map (\<lambda>p. f (snd p)) (map_delete k xs)) = sum_list (map (\<lambda>p. f (snd p)) xs) - (f e :: int)"
proof (induction xs)
  case Nil
  then show ?case by simp
next
  case (Cons p xs)
  show ?case
  proof (cases "fst p = k")
    case True
    with Cons.prems have "snd p = e" by (cases p) simp
    moreover from True Cons.prems have "map_of xs k = None" by (auto simp: map_of_eq_None_iff)
    then have "map_delete k xs = xs" by (rule map_delete_absent)
    ultimately show ?thesis using True by (simp add: map_delete_def)
  next
    case False
    with Cons show ?thesis by (cases p) (auto simp: map_delete_def)
  qed
qed

lemma map_set_absent: "map_of xs k = None \<Longrightarrow> map_set k v xs = xs @ [(k, v)]"
  by (induction xs) (auto split: if_splits)

lemma map_of_map_set: "map_of (map_set k v xs) k' = (if k' = k then Some v else map_of xs k')"
  by (induction xs) auto

lemma map_fst_map_set_present: "map_of xs k = Some e \<Longrightarrow> map fst (map_set k v xs) = map fst xs"
  by (induction xs) (auto split: if_splits)

lemma sum_map_set_present:
  "map_of xs k = Some e \<Longrightarrow> f v = (f e :: int) \<Longrightarrow>
   sum_list (map (\<lambda>p. f (snd p)) (map_set k v xs)) = sum_list (map (\<lambda>p. f (snd p)) xs)"
  by (induction xs) (auto split: if_splits)

section \<open>FileCache: the byte counter equals the sum of the entry sizes\<close>

lemma deleteEntry_inv: "cache_inv c \<Longrightarrow> cache_inv (snd (deleteEntry k c))"
  by (auto simp: cache_inv_def deleteEntry_def distinct_map_delete sum_map_delete
      split: option.splits)

lemma FileCache_get_inv: "cache_inv c \<Longrightarrow> cache_inv (snd (FileCache_get now k h c))"
  unfolding FileCache_get_def
  by (auto split: option.splits
      simp: deleteEntry_inv cache_inv_def deleteEntry_def distinct_map_delete sum_map_delete
        map_fst_map_set_present sum_map_set_present)

lemma FileCache_invalidate_inv: "cache_inv c \<Longrightarrow> cache_inv (snd (FileCache_invalidate k c))"
  by (simp add: FileCache_invalidate_def deleteEntry_inv)

lemma FileCache_clear_inv: "cache_inv (FileCache_clear c)"
  by (simp add: FileCache_clear_def cache_inv_def)

lemma newFileCache_inv: "cache_inv (newFileCache m b t)"
  by (simp add: newFileCache_def cache_inv_def)

lemma evictLRU_inv: "cache_inv c \<Longrightarrow> cache_inv (evictLRU c)"
  by (auto simp: evictLRU_def cache_inv_def deleteEntry_def distinct_map_delete sum_map_delete
      split: option.splits)

lemma evictLRU_limits [simp]:
  "maxEntries (evictLRU c) = maxEntries c" "maxSizeBytes (evictLRU c) = maxSizeBytes c"
  "ttlMs (evictLRU c) = ttlMs c"
  by (auto simp: evictLRU_def deleteEntry_def split: option.splits)

text \<open>The rule of each eviction loop: what \<^verbatim>\<open>evictLRU\<close> keeps, the loop keeps, and on exit
  the loop condition is false.\<close>

lemma evictByCount_rule:
  assumes run: "evictByCount c = Some c'"
    and step: "\<And>x. P x \<Longrightarrow> P (evictLRU x)"
    and init: "P c"
  shows "P c' \<and> int (length (entries c')) \<le> maxEntries c'"
proof -
  have "P c \<longrightarrow> P c' \<and> int (length (entries c')) \<le> maxEntries c'"
  proof (rule evictByCount.raw_induct
      [where P = "\<lambda>x y. P x \<longrightarrow> P y \<and> int (length (entries y)) \<le> maxEntries y", OF _ run])
    fix f x y
    assume IH: "\<And>x y. f x = Some y \<Longrightarrow>
                  P x \<longrightarrow> P y \<and> int (length (entries y)) \<le> maxEntries y"
      and body: "(if maxEntries x < int (length (entries x)) then f (evictLRU x) else Some x) = Some y"
    show "P x \<longrightarrow> P y \<and> int (length (entries y)) \<le> maxEntries y"
    proof (cases "maxEntries x < int (length (entries x))")
      case True
      with body have "f (evictLRU x) = Some y" by simp
      from IH[OF this] step show ?thesis by blast
    next
      case False
      with body show ?thesis by auto
    qed
  qed
  with init show ?thesis by blast
qed

lemma evictBySize_rule:
  assumes run: "evictBySize c = Some c'"
    and step: "\<And>x. P x \<Longrightarrow> P (evictLRU x)"
    and init: "P c"
  shows "P c' \<and> (totalSizeBytes c' \<le> maxSizeBytes c' \<or> entries c' = [])"
proof -
  have "P c \<longrightarrow> P c' \<and> (totalSizeBytes c' \<le> maxSizeBytes c' \<or> entries c' = [])"
  proof (rule evictBySize.raw_induct
      [where P = "\<lambda>x y. P x \<longrightarrow> P y \<and> (totalSizeBytes y \<le> maxSizeBytes y \<or> entries y = [])",
        OF _ run])
    fix f x y
    assume IH: "\<And>x y. f x = Some y \<Longrightarrow>
                  P x \<longrightarrow> P y \<and> (totalSizeBytes y \<le> maxSizeBytes y \<or> entries y = [])"
      and body: "(if maxSizeBytes x < totalSizeBytes x \<and> 0 < length (entries x)
                  then f (evictLRU x) else Some x) = Some y"
    show "P x \<longrightarrow> P y \<and> (totalSizeBytes y \<le> maxSizeBytes y \<or> entries y = [])"
    proof (cases "maxSizeBytes x < totalSizeBytes x \<and> 0 < length (entries x)")
      case True
      with body have "f (evictLRU x) = Some y" by simp
      from IH[OF this] step show ?thesis by blast
    next
      case False
      with body show ?thesis by auto
    qed
  qed
  with init show ?thesis by blast
qed

lemma evictLRU_length_le: "length (entries (evictLRU c)) \<le> length (entries c)"
  by (auto simp: evictLRU_def deleteEntry_def map_delete_def split: option.splits)

lemma deleteEntry_conditional:
  "(if map_of (entries c) k \<noteq> None then snd (deleteEntry k c) else c) = snd (deleteEntry k c)"
  by (simp add: deleteEntry_def)

lemma deleteEntry_absent: "map_of (entries (snd (deleteEntry k c))) k = None"
  by (auto simp: deleteEntry_def map_of_map_delete split: option.splits)

lemma deleteEntry_lookup:
  "map_of (entries (snd (deleteEntry k c))) k' = (if k' = k then None else map_of (entries c) k')"
  by (auto simp: deleteEntry_def map_of_map_delete split: option.splits)

lemma deleteEntry_limits [simp]:
  "maxEntries (snd (deleteEntry k c)) = maxEntries c"
  "maxSizeBytes (snd (deleteEntry k c)) = maxSizeBytes c"
  "ttlMs (snd (deleteEntry k c)) = ttlMs c"
  by (auto simp: deleteEntry_def split: option.splits)

text \<open>The state of \<^verbatim>\<open>set\<close> just before \<^verbatim>\<open>evictIfNeeded\<close>.\<close>

lemma FileCache_set_unfold:
  "FileCache_set est now k h d c =
     evictIfNeeded
       ((snd (deleteEntry k c))
          \<lparr> entries := entries (snd (deleteEntry k c)) @
               [(k, \<lparr> data = d, contentHash = h, createdAt = now, accessCount = 0,
                      lastAccessedAt = now, sizeBytes = est d \<rparr>)],
            totalSizeBytes := totalSizeBytes (snd (deleteEntry k c)) + est d \<rparr>)"
  unfolding FileCache_set_def Let_def deleteEntry_conditional
  by (simp add: map_set_absent[OF deleteEntry_absent])

lemma inserted_inv:
  assumes "cache_inv c"
  shows "cache_inv
           ((snd (deleteEntry k c))
              \<lparr> entries := entries (snd (deleteEntry k c)) @ [(k, e)],
                totalSizeBytes := totalSizeBytes (snd (deleteEntry k c)) + sizeBytes e \<rparr>)"
proof -
  have inv1: "cache_inv (snd (deleteEntry k c))" using assms by (rule deleteEntry_inv)
  have "k \<notin> fst ` set (entries (snd (deleteEntry k c)))"
    using deleteEntry_absent[of k c] by (simp add: map_of_eq_None_iff)
  with inv1 show ?thesis
    unfolding cache_inv_def by simp
qed

lemma FileCache_set_inv_bounds:
  assumes run: "FileCache_set est now k h d c = Some c'" and inv: "cache_inv c"
  shows "cache_inv c' \<and> int (length (entries c')) \<le> maxEntries c' \<and>
         (0 \<le> maxSizeBytes c' \<longrightarrow> totalSizeBytes c' \<le> maxSizeBytes c')"
proof -
  let ?e = "\<lparr> data = d, contentHash = h, createdAt = now, accessCount = 0,
              lastAccessedAt = now, sizeBytes = est d \<rparr>"
  let ?c2 = "(snd (deleteEntry k c))
               \<lparr> entries := entries (snd (deleteEntry k c)) @ [(k, ?e)],
                 totalSizeBytes := totalSizeBytes (snd (deleteEntry k c)) + est d \<rparr>"
  have inv2: "cache_inv ?c2" using inserted_inv[OF inv, of k ?e] by simp
  from run obtain cm where r1: "evictByCount ?c2 = Some cm" and r2: "evictBySize cm = Some c'"
    unfolding FileCache_set_unfold by (auto simp: evictIfNeeded_def split: option.splits)
  have "cache_inv cm \<and> int (length (entries cm)) \<le> maxEntries cm"
    by (rule evictByCount_rule[OF r1]) (simp_all add: evictLRU_inv inv2)
  then have m: "cache_inv cm" "int (length (entries cm)) \<le> maxEntries cm" by simp_all
  let ?P = "\<lambda>x. cache_inv x \<and> int (length (entries x)) \<le> maxEntries cm \<and> maxEntries x = maxEntries cm"
  have stepP: "?P (evictLRU x)" if "?P x" for x
  proof -
    have "length (entries (evictLRU x)) \<le> length (entries x)" by (rule evictLRU_length_le)
    with that show ?thesis by (simp add: evictLRU_inv)
  qed
  have "?P c' \<and> (totalSizeBytes c' \<le> maxSizeBytes c' \<or> entries c' = [])"
    by (rule evictBySize_rule[OF r2, of ?P]) (use stepP m in blast)+
  then have f: "cache_inv c'" "int (length (entries c')) \<le> maxEntries c'"
    "totalSizeBytes c' \<le> maxSizeBytes c' \<or> entries c' = []"
    by auto
  from f(1,3) have "0 \<le> maxSizeBytes c' \<longrightarrow> totalSizeBytes c' \<le> maxSizeBytes c'"
    by (auto simp: cache_inv_def)
  with f show ?thesis by simp
qed

section \<open>FileCache: the scan for the oldest entry and loops that never end\<close>

lemma scanOldest_append: "scanOldest (xs @ ys) acc = scanOldest ys (scanOldest xs acc)"
  by (induction xs acc rule: scanOldest.induct) auto

lemma scanOldest_from_some:
  "\<exists>k a. scanOldest xs (Some k0, Some a0) = (Some k, Some a) \<and> a \<le> a0 \<and>
         (k = k0 \<and> a = a0 \<or> (\<exists>e. (k, e) \<in> set xs \<and> lastAccessedAt e = a)) \<and>
         (\<forall>p\<in>set xs. a \<le> lastAccessedAt (snd p))"
proof (induction xs arbitrary: k0 a0)
  case Nil
  then show ?case by simp
next
  case (Cons p xs)
  obtain u e where p: "p = (u, e)" by (cases p)
  show ?case
  proof (cases "lastAccessedAt e < a0")
    case True
    from Cons.IH[of u "lastAccessedAt e"] obtain k a where
      r: "scanOldest xs (Some u, Some (lastAccessedAt e)) = (Some k, Some a)"
      "a \<le> lastAccessedAt e"
      "k = u \<and> a = lastAccessedAt e \<or> (\<exists>e'. (k, e') \<in> set xs \<and> lastAccessedAt e' = a)"
      "\<forall>p\<in>set xs. a \<le> lastAccessedAt (snd p)"
      by blast
    with True p show ?thesis by auto
  next
    case False
    from Cons.IH[of k0 a0] obtain k a where
      r: "scanOldest xs (Some k0, Some a0) = (Some k, Some a)"
      "a \<le> a0"
      "k = k0 \<and> a = a0 \<or> (\<exists>e'. (k, e') \<in> set xs \<and> lastAccessedAt e' = a)"
      "\<forall>p\<in>set xs. a \<le> lastAccessedAt (snd p)"
      by blast
    with False p show ?thesis by auto
  qed
qed

text \<open>On a non-empty map the scan returns a stored key whose entry is an oldest one.\<close>

lemma scanOldest_minimum_pair:
  assumes "xs \<noteq> []"
  shows "\<exists>k e. scanOldest xs (None, None) = (Some k, Some (lastAccessedAt e)) \<and> (k, e) \<in> set xs \<and>
               (\<forall>p\<in>set xs. lastAccessedAt e \<le> lastAccessedAt (snd p))"
proof -
  from assms obtain u e rest where xs: "xs = (u, e) # rest" by (cases xs) auto
  from scanOldest_from_some[of rest u "lastAccessedAt e"] obtain k a where
    r: "scanOldest rest (Some u, Some (lastAccessedAt e)) = (Some k, Some a)"
    "a \<le> lastAccessedAt e"
    "k = u \<and> a = lastAccessedAt e \<or> (\<exists>e'. (k, e') \<in> set rest \<and> lastAccessedAt e' = a)"
    "\<forall>p\<in>set rest. a \<le> lastAccessedAt (snd p)"
    by blast
  then show ?thesis using xs by auto
qed

lemma scanOldest_empty: "scanOldest [] (None, None) = (None, None)"
  by simp

text \<open>An eviction that changes nothing while the loop condition holds: the loop never ends.\<close>

lemma evictByCount_stuck:
  assumes "maxEntries c < int (length (entries c))" and "evictLRU c = c"
  shows "evictByCount c = None"
proof (cases "evictByCount c")
  case None
  then show ?thesis .
next
  case (Some c')
  have "c' = c \<and> int (length (entries c')) \<le> maxEntries c'"
    by (rule evictByCount_rule[OF Some, of "\<lambda>x. x = c"]) (simp_all add: assms)
  with assms(1) show ?thesis by auto
qed

lemma evictBySize_stuck:
  assumes "maxSizeBytes c < totalSizeBytes c" and "entries c \<noteq> []" and "evictLRU c = c"
  shows "evictBySize c = None"
proof (cases "evictBySize c")
  case None
  then show ?thesis .
next
  case (Some c')
  have "c' = c \<and> (totalSizeBytes c' \<le> maxSizeBytes c' \<or> entries c' = [])"
    by (rule evictBySize_rule[OF Some, of "\<lambda>x. x = c"]) (simp_all add: assms)
  with assms(1,2) show ?thesis by auto
qed

section \<open>FileCache: an insertion that fits is stored\<close>

lemma evictLRU_keepsLast:
  assumes keep: "keepsLast u e c" and many: "1 < length (entries c)"
  shows "keepsLast u e (evictLRU c) \<and> Suc (length (entries (evictLRU c))) = length (entries c)"
proof -
  from keep obtain pre where
    ent: "entries c = pre @ [(u, e)]" and dist: "distinct (map fst pre)" and
    old: "\<forall>p\<in>set pre. fst p \<noteq> [] \<and> fst p \<noteq> u \<and> lastAccessedAt (snd p) \<le> lastAccessedAt e" and
    tot: "totalSizeBytes c = sum_list (map (\<lambda>p. sizeBytes (snd p)) pre) + sizeBytes e"
    unfolding keepsLast_def by blast
  from many ent have ne: "pre \<noteq> []" by auto
  from scanOldest_minimum_pair[OF ne] obtain k e' where
    sc: "scanOldest pre (None, None) = (Some k, Some (lastAccessedAt e'))" and
    mem: "(k, e') \<in> set pre" by blast
  from old mem have k: "k \<noteq> []" "k \<noteq> u" and le: "lastAccessedAt e' \<le> lastAccessedAt e" by auto
  have pick: "fst (scanOldest (entries c) (None, None)) = Some k"
    using le by (simp add: ent scanOldest_append sc)
  from dist mem have look: "map_of pre k = Some e'" by simp
  then have look2: "map_of (entries c) k = Some e'" by (simp add: ent map_add_def)
  have ev: "evictLRU c = c\<lparr> totalSizeBytes := totalSizeBytes c - sizeBytes e',
                            entries := map_delete k pre @ [(u, e)],
                            evictions := evictions c + 1 \<rparr>"
  proof -
    have "evictLRU c = (snd (deleteEntry k c))\<lparr> evictions := evictions c + 1 \<rparr>"
      unfolding evictLRU_def pick using k by simp
    moreover have "snd (deleteEntry k c) =
        c\<lparr> totalSizeBytes := totalSizeBytes c - sizeBytes e', entries := map_delete k (entries c) \<rparr>"
      unfolding deleteEntry_def look2 by simp
    moreover have "map_delete k (entries c) = map_delete k pre @ [(u, e)]"
      using k by (simp add: ent map_delete_def)
    ultimately show ?thesis by simp
  qed
  have "keepsLast u e (evictLRU c)"
    unfolding keepsLast_def
  proof (intro exI[of _ "map_delete k pre"] conjI)
    show "entries (evictLRU c) = map_delete k pre @ [(u, e)]" by (simp add: ev)
    show "distinct (map fst (map_delete k pre))" using dist by (rule distinct_map_delete)
    show "\<forall>p\<in>set (map_delete k pre).
            fst p \<noteq> [] \<and> fst p \<noteq> u \<and> lastAccessedAt (snd p) \<le> lastAccessedAt e"
      using old by (auto simp: map_delete_def)
    show "totalSizeBytes (evictLRU c) =
            sum_list (map (\<lambda>p. sizeBytes (snd p)) (map_delete k pre)) + sizeBytes e"
      by (simp add: ev tot sum_map_delete[OF dist look])
  qed
  moreover have "Suc (length (entries (evictLRU c))) = length (entries c)"
    using length_map_delete_present[OF dist look] by (simp add: ev ent)
  ultimately show ?thesis by simp
qed

lemma evictByCount_keepsLast:
  assumes "keepsLast u e c" and "1 \<le> maxEntries c"
  shows "\<exists>c'. evictByCount c = Some c' \<and> keepsLast u e c' \<and> maxEntries c' = maxEntries c \<and>
              maxSizeBytes c' = maxSizeBytes c \<and> ttlMs c' = ttlMs c"
  using assms
proof (induction "length (entries c)" arbitrary: c rule: less_induct)
  case less
  show ?case
  proof (cases "maxEntries c < int (length (entries c))")
    case False
    then have "evictByCount c = Some c" by (subst evictByCount.simps) simp
    with less.prems show ?thesis by simp
  next
    case True
    with less.prems have many: "1 < length (entries c)" by linarith
    from evictLRU_keepsLast[OF less.prems(1) many]
    have k: "keepsLast u e (evictLRU c)" and l: "Suc (length (entries (evictLRU c))) = length (entries c)"
      by simp_all
    from l have "length (entries (evictLRU c)) < length (entries c)" by linarith
    from less.hyps[OF this k] less.prems(2)
    obtain c' where "evictByCount (evictLRU c) = Some c'" "keepsLast u e c'"
      "maxEntries c' = maxEntries c" "maxSizeBytes c' = maxSizeBytes c" "ttlMs c' = ttlMs c"
      by auto
    moreover have "evictByCount c = evictByCount (evictLRU c)"
      using True by (subst evictByCount.simps) simp
    ultimately show ?thesis by simp
  qed
qed

lemma keepsLast_single:
  assumes "keepsLast u e c" and "length (entries c) \<le> 1"
  shows "totalSizeBytes c = sizeBytes e"
  using assms unfolding keepsLast_def by auto

lemma evictBySize_keepsLast:
  assumes "keepsLast u e c" and "sizeBytes e \<le> maxSizeBytes c"
  shows "\<exists>c'. evictBySize c = Some c' \<and> keepsLast u e c' \<and> maxEntries c' = maxEntries c \<and>
              maxSizeBytes c' = maxSizeBytes c \<and> ttlMs c' = ttlMs c"
  using assms
proof (induction "length (entries c)" arbitrary: c rule: less_induct)
  case less
  show ?case
  proof (cases "maxSizeBytes c < totalSizeBytes c \<and> 0 < length (entries c)")
    case False
    then have "evictBySize c = Some c" by (subst evictBySize.simps) auto
    with less.prems show ?thesis by simp
  next
    case True
    have many: "1 < length (entries c)"
    proof (rule ccontr)
      assume "\<not> 1 < length (entries c)"
      then have "length (entries c) \<le> 1" by simp
      from keepsLast_single[OF less.prems(1) this] True less.prems(2) show False by simp
    qed
    from evictLRU_keepsLast[OF less.prems(1) many]
    have k: "keepsLast u e (evictLRU c)" and l: "Suc (length (entries (evictLRU c))) = length (entries c)"
      by simp_all
    from l have "length (entries (evictLRU c)) < length (entries c)" by linarith
    from less.hyps[OF this k] less.prems(2)
    obtain c' where "evictBySize (evictLRU c) = Some c'" "keepsLast u e c'"
      "maxEntries c' = maxEntries c" "maxSizeBytes c' = maxSizeBytes c" "ttlMs c' = ttlMs c"
      by auto
    moreover have "evictBySize c = evictBySize (evictLRU c)"
      using True by (subst evictBySize.simps) simp
    ultimately show ?thesis by simp
  qed
qed

lemma keepsLast_lookup: "keepsLast u e c \<Longrightarrow> map_of (entries c) u = Some e"
proof -
  assume "keepsLast u e c"
  then obtain pre where ent: "entries c = pre @ [(u, e)]" and
    old: "\<forall>p\<in>set pre. fst p \<noteq> [] \<and> fst p \<noteq> u \<and> lastAccessedAt (snd p) \<le> lastAccessedAt e"
    unfolding keepsLast_def by blast
  from old have "map_of pre u = None" by (force simp: map_of_eq_None_iff)
  then show ?thesis by (simp add: ent map_add_def)
qed

lemma keepsLast_inv: "keepsLast u e c \<Longrightarrow> cache_inv c"
  unfolding keepsLast_def cache_inv_def by force

text \<open>
  When the cache is consistent, holds no empty key, no entry was accessed after \<open>now\<close>, and
  the new entry alone fits both limits, \<^verbatim>\<open>set\<close> returns and the new entry is stored.
\<close>

lemma FileCache_set_stores:
  assumes inv: "cache_inv c" and keys: "noEmptyKey c" and clock: "accessedBy now c"
    and cnt: "1 \<le> maxEntries c" and fits: "est d \<le> maxSizeBytes c"
  shows "\<exists>c'. FileCache_set est now u h d c = Some c' \<and>
           map_of (entries c') u =
             Some \<lparr> data = d, contentHash = h, createdAt = now, accessCount = 0,
                    lastAccessedAt = now, sizeBytes = est d \<rparr> \<and>
           ttlMs c' = ttlMs c \<and> cache_inv c'"
proof -
  let ?e = "\<lparr> data = d, contentHash = h, createdAt = now, accessCount = 0,
              lastAccessedAt = now, sizeBytes = est d \<rparr>"
  let ?c1 = "snd (deleteEntry u c)"
  let ?c2 = "?c1\<lparr> entries := entries ?c1 @ [(u, ?e)],
                  totalSizeBytes := totalSizeBytes ?c1 + est d \<rparr>"
  have inv1: "cache_inv ?c1" using inv by (rule deleteEntry_inv)
  have sub: "set (entries ?c1) \<subseteq> set (entries c)"
    by (auto simp: deleteEntry_def map_delete_def split: option.splits)
  have absent: "u \<notin> fst ` set (entries ?c1)"
    using deleteEntry_absent[of u c] by (simp add: map_of_eq_None_iff)
  have keep2: "keepsLast u ?e ?c2"
    unfolding keepsLast_def
  proof (intro exI[of _ "entries ?c1"] conjI)
    show "entries ?c2 = entries ?c1 @ [(u, ?e)]" by simp
    show "distinct (map fst (entries ?c1))" using inv1 by (simp add: cache_inv_def)
    show "\<forall>p\<in>set (entries ?c1).
            fst p \<noteq> [] \<and> fst p \<noteq> u \<and> lastAccessedAt (snd p) \<le> lastAccessedAt ?e"
      using sub keys clock absent unfolding noEmptyKey_def accessedBy_def by force
    show "totalSizeBytes ?c2 = sum_list (map (\<lambda>p. sizeBytes (snd p)) (entries ?c1)) + sizeBytes ?e"
      using inv1 by (simp add: cache_inv_def)
  qed
  have lim2: "maxEntries ?c2 = maxEntries c" "maxSizeBytes ?c2 = maxSizeBytes c" "ttlMs ?c2 = ttlMs c"
    by simp_all
  from evictByCount_keepsLast[OF keep2] cnt lim2
  obtain cm where r1: "evictByCount ?c2 = Some cm" and km: "keepsLast u ?e cm"
    and limm: "maxEntries cm = maxEntries c" "maxSizeBytes cm = maxSizeBytes c" "ttlMs cm = ttlMs c"
    by auto
  from evictBySize_keepsLast[OF km] fits limm
  obtain c' where r2: "evictBySize cm = Some c'" and k': "keepsLast u ?e c'"
    and lim': "ttlMs c' = ttlMs c"
    by auto
  have "FileCache_set est now u h d c = Some c'"
    unfolding FileCache_set_unfold by (simp add: evictIfNeeded_def r1 r2)
  with keepsLast_lookup[OF k'] keepsLast_inv[OF k'] lim' show ?thesis by simp
qed

lemma FileCache_get_hit:
  assumes "map_of (entries c) u = Some e" and "contentHash e = h" and "now - createdAt e \<le> ttlMs c"
  shows "fst (FileCache_get now u h c) = Some (data e)"
  using assms by (simp add: FileCache_get_def)

section \<open>FileCache: eviction selects an oldest entry and ends when no key is empty\<close>

text \<open>
  One call of \<^verbatim>\<open>evictLRU\<close> on a consistent, non-empty cache: the entry it selects is an
  oldest one; it is removed when its key is not the empty string, and nothing happens when
  it is.
\<close>

lemma evictLRU_selects_oldest:
  assumes inv: "cache_inv c" and ne: "entries c \<noteq> []"
  shows "\<exists>k e. (k, e) \<in> set (entries c) \<and>
           (\<forall>p\<in>set (entries c). lastAccessedAt e \<le> lastAccessedAt (snd p)) \<and>
           (k \<noteq> [] \<longrightarrow>
              evictLRU c = c\<lparr> totalSizeBytes := totalSizeBytes c - sizeBytes e,
                               entries := map_delete k (entries c),
                               evictions := evictions c + 1 \<rparr> \<and>
              Suc (length (entries (evictLRU c))) = length (entries c)) \<and>
           (k = [] \<longrightarrow> evictLRU c = c)"
proof -
  from scanOldest_minimum_pair[OF ne] obtain k e where
    sc: "scanOldest (entries c) (None, None) = (Some k, Some (lastAccessedAt e))" and
    mem: "(k, e) \<in> set (entries c)" and
    mn: "\<forall>p\<in>set (entries c). lastAccessedAt e \<le> lastAccessedAt (snd p)" by blast
  from inv have dist: "distinct (map fst (entries c))" by (simp add: cache_inv_def)
  with mem have look: "map_of (entries c) k = Some e" by simp
  have pick: "fst (scanOldest (entries c) (None, None)) = Some k" by (simp add: sc)
  have a: "evictLRU c = c" if "k = []"
    unfolding evictLRU_def pick using that by simp
  have b: "evictLRU c = c\<lparr> totalSizeBytes := totalSizeBytes c - sizeBytes e,
                               entries := map_delete k (entries c),
                               evictions := evictions c + 1 \<rparr>" if "k \<noteq> []"
    unfolding evictLRU_def pick using that by (simp add: deleteEntry_def look)
  have "Suc (length (entries (evictLRU c))) = length (entries c)" if "k \<noteq> []"
    using length_map_delete_present[OF dist look] b[OF that] by simp
  with mem mn a b show ?thesis by blast
qed

lemma evictLRU_noEmptyKey: "noEmptyKey c \<Longrightarrow> noEmptyKey (evictLRU c)"
  by (auto simp: noEmptyKey_def evictLRU_def deleteEntry_def map_delete_def split: option.splits)

lemma evictLRU_shrinks:
  assumes "cache_inv c" and "noEmptyKey c" and "entries c \<noteq> []"
  shows "length (entries (evictLRU c)) < length (entries c)"
proof -
  from evictLRU_selects_oldest[OF assms(1,3)] obtain k e where
    mem: "(k, e) \<in> set (entries c)" and
    r: "k \<noteq> [] \<longrightarrow> Suc (length (entries (evictLRU c))) = length (entries c)" by blast
  from mem assms(2) have "k \<noteq> []" by (force simp: noEmptyKey_def)
  with r show ?thesis by linarith
qed

text \<open>With no empty key in the map and non-negative limits, both eviction loops end.\<close>

lemma evictByCount_returns:
  assumes "cache_inv c" and "noEmptyKey c" and "0 \<le> maxEntries c"
  shows "\<exists>c'. evictByCount c = Some c' \<and> cache_inv c' \<and> noEmptyKey c'"
  using assms
proof (induction "length (entries c)" arbitrary: c rule: less_induct)
  case less
  show ?case
  proof (cases "maxEntries c < int (length (entries c))")
    case False
    then have "evictByCount c = Some c" by (subst evictByCount.simps) simp
    with less.prems show ?thesis by simp
  next
    case True
    with less.prems(3) have ne: "entries c \<noteq> []" by auto
    have "length (entries (evictLRU c)) < length (entries c)"
      using less.prems(1,2) ne by (rule evictLRU_shrinks)
    from less.hyps[OF this evictLRU_inv[OF less.prems(1)] evictLRU_noEmptyKey[OF less.prems(2)]]
      less.prems(3)
    obtain c' where "evictByCount (evictLRU c) = Some c'" "cache_inv c'" "noEmptyKey c'" by auto
    moreover have "evictByCount c = evictByCount (evictLRU c)"
      using True by (subst evictByCount.simps) simp
    ultimately show ?thesis by simp
  qed
qed

lemma evictBySize_returns:
  assumes "cache_inv c" and "noEmptyKey c"
  shows "\<exists>c'. evictBySize c = Some c'"
  using assms
proof (induction "length (entries c)" arbitrary: c rule: less_induct)
  case less
  show ?case
  proof (cases "maxSizeBytes c < totalSizeBytes c \<and> 0 < length (entries c)")
    case False
    then have "evictBySize c = Some c" by (subst evictBySize.simps) auto
    then show ?thesis by simp
  next
    case True
    then have ne: "entries c \<noteq> []" by auto
    have "length (entries (evictLRU c)) < length (entries c)"
      using less.prems(1,2) ne by (rule evictLRU_shrinks)
    from less.hyps[OF this evictLRU_inv[OF less.prems(1)] evictLRU_noEmptyKey[OF less.prems(2)]]
    obtain c' where "evictBySize (evictLRU c) = Some c'" by auto
    moreover have "evictBySize c = evictBySize (evictLRU c)"
      using True by (subst evictBySize.simps) simp
    ultimately show ?thesis by simp
  qed
qed

lemma FileCache_set_returns:
  assumes inv: "cache_inv c" and keys: "noEmptyKey c" and u: "u \<noteq> []"
    and cnt: "0 \<le> maxEntries c"
  shows "\<exists>c'. FileCache_set est now u h d c = Some c'"
proof -
  let ?e = "\<lparr> data = d, contentHash = h, createdAt = now, accessCount = 0,
              lastAccessedAt = now, sizeBytes = est d \<rparr>"
  let ?c2 = "(snd (deleteEntry u c))
               \<lparr> entries := entries (snd (deleteEntry u c)) @ [(u, ?e)],
                 totalSizeBytes := totalSizeBytes (snd (deleteEntry u c)) + est d \<rparr>"
  have inv2: "cache_inv ?c2" using inserted_inv[OF inv, of u ?e] by simp
  have "set (entries (snd (deleteEntry u c))) \<subseteq> set (entries c)"
    by (auto simp: deleteEntry_def map_delete_def split: option.splits)
  with keys u have keys2: "noEmptyKey ?c2" by (auto simp: noEmptyKey_def)
  have "0 \<le> maxEntries ?c2" using cnt by simp
  from evictByCount_returns[OF inv2 keys2 this]
  obtain cm where r1: "evictByCount ?c2 = Some cm" and m: "cache_inv cm" "noEmptyKey cm" by blast
  from evictBySize_returns[OF m] obtain c' where r2: "evictBySize cm = Some c'" by blast
  have "FileCache_set est now u h d c = Some c'"
    unfolding FileCache_set_unfold by (simp add: evictIfNeeded_def r1 r2)
  then show ?thesis by blast
qed

section \<open>FileCache: an entry under the empty uri is never evicted\<close>

lemma emptyUri_first_insert:
  "FileCache_set tenBytes 1000 [] ''h1'' (1::nat) (newFileCache 1 10 300) = Some emptyUriCache"
  by (simp add: FileCache_set_unfold newFileCache_def deleteEntry_def evictIfNeeded_def
      evictByCount.simps evictBySize.simps tenBytes_def emptyUriCache_def)

lemma emptyUri_eviction_noop: "evictLRU emptyUriCacheFull = emptyUriCacheFull"
  by (simp add: evictLRU_def emptyUriCacheFull_def emptyUriCache_def)

text \<open>
  Claim C5 (the byte counter is the sum of the entry sizes; after every insertion the cache
  is within \<^verbatim>\<open>maxEntries\<close> and \<^verbatim>\<open>maxSizeBytes\<close>; eviction removes the entry with the least
  \<^verbatim>\<open>lastAccessedAt\<close>) against the code at a cache of \<^verbatim>\<open>maxEntries = 1\<close>. The first
  \<^verbatim>\<open>set\<close> stores a value under the empty uri. The second \<^verbatim>\<open>set\<close>, for the uri \<^verbatim>\<open>a\<close>, brings
  the cache to two entries; \<^verbatim>\<open>evictLRU\<close> selects the entry of the empty uri, the oldest,
  and the test \<^verbatim>\<open>if (oldestUri)\<close> skips its deletion, so the state is unchanged, the
  count stays above the limit and \<^verbatim>\<open>set\<close> never returns. The lemmas
  \<open>FileCache_set_inv_bounds\<close>, \<open>evictLRU_selects_oldest\<close> and \<open>FileCache_set_returns\<close> above
  show that the claim holds when no key is the empty string.
\<close>

theorem empty_uri_never_evicted:
  "FileCache_set tenBytes 1000 [] ''h1'' (1::nat) (newFileCache 1 10 300) = Some emptyUriCache \<and>
   evictLRU emptyUriCacheFull = emptyUriCacheFull \<and>
   maxEntries emptyUriCacheFull < int (length (entries emptyUriCacheFull)) \<and>
   FileCache_set tenBytes 2000 ''a'' ''h2'' 2 emptyUriCache = None"
proof -
  have over: "maxEntries emptyUriCacheFull < int (length (entries emptyUriCacheFull))"
    by (simp add: emptyUriCacheFull_def emptyUriCache_def newFileCache_def)
  have "FileCache_set tenBytes 2000 ''a'' ''h2'' 2 emptyUriCache = evictIfNeeded emptyUriCacheFull"
    by (simp add: FileCache_set_unfold deleteEntry_def emptyUriCacheFull_def emptyUriCache_def
        tenBytes_def)
  also have "\<dots> = None"
    by (simp add: evictIfNeeded_def evictByCount_stuck[OF over emptyUri_eviction_noop])
  finally show ?thesis using emptyUri_first_insert emptyUri_eviction_noop over by simp
qed

section \<open>FileCache: a time-to-live of zero\<close>

lemma ttlZeroCache_stored:
  "FileCache_set tenBytes 1000 ''u'' ''h'' (7::nat) (newFileCache 100 10 0) = Some ttlZeroCache"
  by (simp add: FileCache_set_unfold newFileCache_def deleteEntry_def evictIfNeeded_def
      evictByCount.simps evictBySize.simps tenBytes_def ttlZeroCache_def)

text \<open>
  Claim C7 as stated (with \<^verbatim>\<open>ttlSeconds = 0\<close> every \<^verbatim>\<open>get\<close> is a miss) fails on the code:
  the expiry test is \<^verbatim>\<open>now - createdAt > ttlMs\<close>, so a \<^verbatim>\<open>get\<close> in the millisecond of the
  \<^verbatim>\<open>set\<close> returns the stored value. The cache is built with \<^verbatim>\<open>ttlSeconds = 0\<close>, the value
  7 is stored at time 1000 and read at time 1000.
\<close>

theorem ttl_zero_same_ms_hit:
  "FileCache_set tenBytes 1000 ''u'' ''h'' (7::nat) (newFileCache 100 10 0) = Some ttlZeroCache \<and>
   ttlMs ttlZeroCache = 0 \<and>
   fst (FileCache_get 1000 ''u'' ''h'' ttlZeroCache) = Some 7"
  by (simp add: ttlZeroCache_stored) (simp add: ttlZeroCache_def newFileCache_def FileCache_get_def)

text \<open>
  Claim C7, amended. With a time-to-live of zero, \<^verbatim>\<open>get(uri, hash)\<close> returns the stored
  value exactly when an entry for the uri exists, its hash equals \<open>hash\<close> and the clock has
  not passed the entry's \<^verbatim>\<open>createdAt\<close>; every \<^verbatim>\<open>get\<close> at a later clock reading is a miss.
\<close>

theorem ttl_zero_get:
  "ttlMs c = 0 \<Longrightarrow>
   fst (FileCache_get now u h c) =
     (case map_of (entries c) u of
        None \<Rightarrow> None
      | Some e \<Rightarrow> if contentHash e = h \<and> now \<le> createdAt e then Some (data e) else None)"
  by (auto simp: FileCache_get_def split: option.splits)

theorem ttl_zero_get_witness:
  "ttlMs ttlZeroCache = 0 \<and>
   fst (FileCache_get 1001 ''u'' ''h'' ttlZeroCache) = None \<and>
   fst (FileCache_get 1000 ''u'' ''h'' ttlZeroCache) = Some 7"
proof -
  have z: "ttlMs ttlZeroCache = 0" by (simp add: ttlZeroCache_def newFileCache_def)
  from ttl_zero_get[OF z, of 1001 "''u''" "''h''"] ttl_zero_get[OF z, of 1000 "''u''" "''h''"] z
  show ?thesis by (simp add: ttlZeroCache_def)
qed

section \<open>AnalysisBridge: the second request for the same content is served from the cache\<close>

lemma processQueue_fields [simp]:
  "cache (processQueue now s) = cache s"
  "cacheEnabled (processQueue now s) = cacheEnabled s"
  "settlements (processQueue now s) = settlements s"
  "nextHandle (processQueue now s) = nextHandle s"
  "maxConcurrentAnalyses (processQueue now s) = maxConcurrentAnalyses s"
  by (simp_all add: processQueue_def split: prod.splits)

lemma FileCache_get_hit_full:
  assumes "map_of (entries c) u = Some e" and "contentHash e = h" and "now - createdAt e \<le> ttlMs c"
  shows "\<exists>c'. FileCache_get now u h c = (Some (data e), c')"
  using assms by (simp add: FileCache_get_def)

lemma afterFirstCall_value:
  "afterFirstCall =
     exampleBridge\<lparr> cache := (cache exampleBridge)\<lparr> misses := 1 \<rparr>, activeAnalyses := 1,
                    running := [exampleActive], nextHandle := 1 \<rparr>"
  by code_simp

lemma utf8Length_append [simp]: "utf8Length (a @ b) = utf8Length a + utf8Length b"
  by (simp add: utf8Length_def)

lemma utf8Length_Cons [simp]:
  "utf8Length (c # s) = (if (of_char c :: nat) < 128 then 1 else 2) + utf8Length s"
  by (simp add: utf8Length_def)

lemma utf8Length_Nil [simp]: "utf8Length [] = 0"
  by (simp add: utf8Length_def)

lemma utf8Length_ge_length: "length s \<le> utf8Length s"
  by (induction s) auto

lemma jsonEscape_nonempty: "1 \<le> length (jsonEscape c)"
  by (simp add: jsonEscape_def Let_def)

lemma escaped_length: "length s \<le> length (concat (map jsonEscape s))"
proof (induction s)
  case Nil
  then show ?case by simp
next
  case (Cons c s)
  with jsonEscape_nonempty[of c] show ?case by simp
qed

lemma jsonString_length: "length s + 2 \<le> utf8Length (jsonString s)"
proof -
  have "length s + 2 \<le> length (jsonString s)"
    using escaped_length[of s] by (simp add: jsonString_def)
  also have "\<dots> \<le> utf8Length (jsonString s)" by (rule utf8Length_ge_length)
  finally show ?thesis .
qed

lemma joinComma_element: "x \<in> set xs \<Longrightarrow> utf8Length x \<le> utf8Length (joinComma xs)"
  by (induction xs rule: joinComma.induct) auto

lemma jsonArray_element: "x \<in> set xs \<Longrightarrow> utf8Length x \<le> utf8Length (jsonArray xs)"
  using joinComma_element[of x xs] by (simp add: jsonArray_def)

lemma jsonObject_member: "(k, v) \<in> set ms \<Longrightarrow> utf8Length v \<le> utf8Length (jsonObject ms)"
proof -
  assume m: "(k, v) \<in> set ms"
  then have "jsonString k @ '':'' @ v \<in> set (map (\<lambda>(k, v). jsonString k @ '':'' @ v) ms)"
    by force
  from joinComma_element[OF this] show ?thesis by (simp add: jsonObject_def)
qed

lemma jsonDiagnostic_message: "length (message d) + 2 \<le> utf8Length (jsonDiagnostic d)"
proof -
  have "utf8Length (jsonString (message d)) \<le> utf8Length (jsonDiagnostic d)"
    unfolding jsonDiagnostic_def by (rule jsonObject_member[of "''message''"]) simp
  with jsonString_length[of "message d"] show ?thesis by simp
qed

lemma estimateSize_message:
  assumes "d \<in> set (diagnostics r)"
  shows "int (length (message d)) + 2 \<le> estimateSize r"
proof -
  from assms have "utf8Length (jsonDiagnostic d)
                     \<le> utf8Length (jsonArray (map jsonDiagnostic (diagnostics r)))"
    by (intro jsonArray_element) simp
  also have "\<dots> \<le> utf8Length (jsonResult r)"
    unfolding jsonResult_def by (rule jsonObject_member[of "''diagnostics''"]) simp
  finally have "utf8Length (jsonDiagnostic d) \<le> utf8Length (jsonResult r)" .
  with jsonDiagnostic_message[of d] show ?thesis by (simp add: estimateSize_def)
qed

lemma oversized_entry_evicted:
  assumes e: "entries c = []" and t: "totalSizeBytes c = 0" and n: "1 \<le> maxEntries c"
    and lim: "0 \<le> maxSizeBytes c" and big: "maxSizeBytes c < est d" and u: "u \<noteq> []"
  shows "FileCache_set est now u h d c = Some (c\<lparr> evictions := evictions c + 1 \<rparr>)"
  using assms
  by (simp add: FileCache_set_unfold deleteEntry_def evictIfNeeded_def evictByCount.simps
      evictBySize.simps evictLRU_def map_delete_def)

lemma longMessage_length: "length longMessage = 1048576"
  by (simp add: longMessage_def)

lemma largeMerged_value:
  "mergedResult exampleHash 1500 exampleActive
     (settledResults afterFirstCall (Fulfilled (exampleToolResult Src_tsgo longMessage))
        (Fulfilled noFindings)) = largeMerged"
  by (simp add: mergedResult_def settledResults_def afterFirstCall_value exampleBridge_def
      newAnalysisBridge_def exampleToolResult_def noFindings_def deduplicateDiagnostics_def
      dedupStep_def exampleActive_def exampleHash_def largeMerged_def)

lemma largeMerged_size: "1048576 < estimateSize largeMerged"
proof -
  have "exampleDiag Src_tsgo longMessage \<in> set (diagnostics largeMerged)"
    by (simp add: largeMerged_def)
  from estimateSize_message[OF this] show ?thesis
    by (simp add: exampleDiag_def longMessage_length)
qed

lemma analyzeFile_miss_starts:
  assumes e: "map_of (entries (cache s)) u = None" and q: "queue s = []"
    and np: "\<not> processing s" and free: "activeAnalyses s < maxConcurrentAnalyses s"
  shows "running (analyzeFile computeHash now u c f p s) =
           running s @ [\<lparr> item = newItem now (nextHandle s) u c f p, startTime = now \<rparr>] \<and>
         settlements (analyzeFile computeHash now u c f p s) = settlements s"
proof -
  have lk: "fst (cacheLookup computeHash now u c f s) = None"
    using e by (simp add: cacheLookup_def FileCache_get_def split: prod.split)
  obtain s1 where s1: "cacheLookup computeHash now u c f s = (None, s1)"
    using lk by (cases "cacheLookup computeHash now u c f s") auto
  have f1: "queue s1 = []" "processing s1 = False" "activeAnalyses s1 = activeAnalyses s"
    "maxConcurrentAnalyses s1 = maxConcurrentAnalyses s" "running s1 = running s"
    "settlements s1 = settlements s" "nextHandle s1 = nextHandle s"
    using s1 q np
    by (auto simp add: cacheLookup_def FileCache_get_def split: if_splits prod.splits)
  have sup: "supersede u s1 = s1" by (simp add: supersede_def f1)
  show ?thesis
    unfolding analyzeFile_def Let_def s1 using free
    by (simp add: sup f1 processQueue_def)
qed

lemma large_completion:
  "\<exists>s2. executeAnalysis estimateSize exampleHash 1500 exampleActive
           (Fulfilled (exampleToolResult Src_tsgo longMessage)) (Fulfilled noFindings)
           afterFirstCall = Some s2 \<and>
        entries (cache s2) = [] \<and> queue s2 = [] \<and> \<not> processing s2 \<and> running s2 = [] \<and>
        activeAnalyses s2 = 0 \<and> maxConcurrentAnalyses s2 = 4 \<and> nextHandle s2 = 1 \<and>
        settlements s2 = [(0, Resolved largeMerged)]"
proof -
  have a: "cacheEnabled afterFirstCall" "queue afterFirstCall = []"
    "\<not> processing afterFirstCall" "running afterFirstCall = [exampleActive]"
    "activeAnalyses afterFirstCall = 1" "maxConcurrentAnalyses afterFirstCall = 4"
    "nextHandle afterFirstCall = 1" "settlements afterFirstCall = []"
    "filesAnalyzedCount afterFirstCall = 0"
    by (simp_all add: afterFirstCall_value exampleBridge_def newAnalysisBridge_def)
  have c: "entries (cache afterFirstCall) = []" "totalSizeBytes (cache afterFirstCall) = 0"
    "maxEntries (cache afterFirstCall) = 100" "maxSizeBytes (cache afterFirstCall) = 1048576"
    by (simp_all add: afterFirstCall_value exampleBridge_def newAnalysisBridge_def
        newFileCache_def)
  have i: "uri (item exampleActive) = ''file:///a.ts''" "handle (item exampleActive) = 0"
    by (simp_all add: exampleActive_def)
  define c1 where "c1 = (cache afterFirstCall)\<lparr> evictions := evictions (cache afterFirstCall) + 1 \<rparr>"
  have st: "FileCache_set estimateSize 1500 ''file:///a.ts'' (r_contentHash largeMerged)
              largeMerged (cache afterFirstCall) = Some c1"
    unfolding c1_def using largeMerged_size by (intro oversized_entry_evicted) (simp_all add: c)
  define s2 where "s2 = processQueue 1500
                     (afterFirstCall\<lparr> cache := c1,
                         filesAnalyzedCount := filesAnalyzedCount afterFirstCall + 1,
                         settlements := settlements afterFirstCall @ [(0, Resolved largeMerged)],
                         running := remove1 exampleActive (running afterFirstCall),
                         activeAnalyses := activeAnalyses afterFirstCall - 1 \<rparr>)"
  have run: "executeAnalysis estimateSize exampleHash 1500 exampleActive
           (Fulfilled (exampleToolResult Src_tsgo longMessage)) (Fulfilled noFindings)
           afterFirstCall = Some s2"
    unfolding executeAnalysis_def Let_def largeMerged_value i s2_def using a(1) st by simp
  have "entries (cache s2) = []" "queue s2 = []" "\<not> processing s2" "running s2 = []"
    "activeAnalyses s2 = 0" "maxConcurrentAnalyses s2 = 4" "nextHandle s2 = 1"
    "settlements s2 = [(0, Resolved largeMerged)]"
    by (simp_all add: s2_def processQueue_def a c c1_def)
  with run show ?thesis by blast
qed

text \<open>
  Claim C1 as stated (for every uri and content, the second of two successive calls with
  \<^verbatim>\<open>force = false\<close>, caching enabled and the TTL not elapsed is a cache hit) fails on the
  code: \<^verbatim>\<open>FileCache.set\<close> evicts after it has inserted, until the byte limit holds, and a
  result whose JSON text is longer than the limit is evicted by its own insertion. The
  bridge has a cache limit of one megabyte. The first request for \<^verbatim>\<open>a.ts\<close> misses the
  cache and starts; its analysis completes with one tsgo diagnostic whose message has
  1048576 characters, so that \<^verbatim>\<open>estimateSize\<close> of the merged result is above 1048576
  (\<open>largeMerged_size\<close>); the first call resolves with that result, \<^verbatim>\<open>cached = false\<close>
  (promise 0). The second request, 100 ms later, finds no entry: promise 1 is not settled,
  it belongs to a new running analysis.
\<close>

theorem oversized_result_not_cached:
  "map_option runningAndSettled
     (runEvents estimateSize exampleHash largeResultEvents exampleBridge) = Some ([1], [0]) \<and>
   map_option settlements
     (runEvents estimateSize exampleHash largeResultEvents exampleBridge)
     = Some [(0, Resolved largeMerged)]"
proof -
  from large_completion obtain s2 where
    run: "executeAnalysis estimateSize exampleHash 1500 exampleActive
           (Fulfilled (exampleToolResult Src_tsgo longMessage)) (Fulfilled noFindings)
           afterFirstCall = Some s2"
    and f: "entries (cache s2) = []" "queue s2 = []" "\<not> processing s2" "running s2 = []"
      "activeAnalyses s2 = 0" "maxConcurrentAnalyses s2 = 4" "nextHandle s2 = 1"
      "settlements s2 = [(0, Resolved largeMerged)]" by blast
  have r1: "exampleActive \<in> set (running afterFirstCall)"
    by (simp add: afterFirstCall_value)
  from f have "map_of (entries (cache s2)) ''file:///a.ts'' = None"
    and "activeAnalyses s2 < maxConcurrentAnalyses s2" by simp_all
  from analyzeFile_miss_starts[OF this(1) f(2) f(3) this(2),
      of exampleHash 1600 "''x''" False Open] f
  have "runningAndSettled (analyzeFile exampleHash 1600 ''file:///a.ts'' ''x'' False Open s2)
          = ([1], [0])"
    and "settlements (analyzeFile exampleHash 1600 ''file:///a.ts'' ''x'' False Open s2)
          = [(0, Resolved largeMerged)]"
    by (simp_all add: runningAndSettled_def newItem_def)
  with run r1 show ?thesis
    by (simp add: largeResultEvents_def afterFirstCall_def[symmetric])
qed

text \<open>
  Claim C1, amended. Let \<open>s\<close> be a state of the bridge with caching enabled whose cache is
  consistent (distinct keys, the byte counter equal to the sum of the entry sizes), has no
  empty-string key, has no entry accessed later than \<open>t1\<close>, and has \<^verbatim>\<open>maxEntries\<close> at least
  1. Let the analysis \<open>a\<close> of \<open>(uri, content)\<close> complete in \<open>s\<close> at time \<open>t1\<close> with the merged
  result \<open>m\<close>, and let the estimated size of \<open>m\<close> be at most \<^verbatim>\<open>maxSizeBytes\<close>. Then the
  completion returns and resolves the first call with \<open>m\<close>, whose \<^verbatim>\<open>cached\<close> flag is false;
  and a second \<^verbatim>\<open>analyzeFile(uri, content)\<close> with \<^verbatim>\<open>force = false\<close>, made in the state the
  completion leaves at a time \<open>t2\<close> with \<open>t2 - t1 \<le> ttlMs\<close>, resolves at once with \<open>m\<close>
  marked \<^verbatim>\<open>cached = true\<close>, which has the diagnostics of \<open>m\<close>, and leaves the queue and
  the running analyses as they were.
\<close>

theorem cache_hit_after_analysis:
  assumes enabled: "cacheEnabled s"
    and inv: "cache_inv (cache s)" and keys: "noEmptyKey (cache s)"
    and clock: "accessedBy t1 (cache s)"
    and cnt: "1 \<le> maxEntries (cache s)"
    and m: "m = mergedResult computeHash t1 a (settledResults s tsgoOutcome oxcOutcome)"
    and fits: "est m \<le> maxSizeBytes (cache s)"
    and ttl: "t2 - t1 \<le> ttlMs (cache s)"
  shows "\<exists>s1. executeAnalysis est computeHash t1 a tsgoOutcome oxcOutcome s = Some s1 \<and>
           settlements s1 = settlements s @ [(handle (item a), Resolved m)] \<and>
           cached m = False \<and>
           settlements (analyzeFile computeHash t2 (uri (item a)) (content (item a)) False p s1)
             = settlements s1 @ [(nextHandle s1, Resolved (m\<lparr> cached := True \<rparr>))] \<and>
           diagnostics (m\<lparr> cached := True \<rparr>) = diagnostics m \<and>
           queue (analyzeFile computeHash t2 (uri (item a)) (content (item a)) False p s1) = queue s1 \<and>
           running (analyzeFile computeHash t2 (uri (item a)) (content (item a)) False p s1)
             = running s1"
proof -
  let ?u = "uri (item a)"
  let ?h = "computeHash (content (item a))"
  let ?e = "\<lparr> data = m, contentHash = ?h, createdAt = t1, accessCount = 0,
              lastAccessedAt = t1, sizeBytes = est m \<rparr>"
  have hm: "r_contentHash m = ?h" and cm: "cached m = False"
    by (simp_all add: m mergedResult_def)
  from FileCache_set_stores[where est = est and d = m and u = ?u and h = ?h,
      OF inv keys clock cnt fits]
  obtain c' where st: "FileCache_set est t1 ?u ?h m (cache s) = Some c'"
    and look: "map_of (entries c') ?u = Some ?e" and t: "ttlMs c' = ttlMs (cache s)"
    by blast
  define s1 where "s1 = processQueue t1
                     (s\<lparr> cache := c',
                         filesAnalyzedCount := filesAnalyzedCount s + 1,
                         settlements := settlements s @ [(handle (item a), Resolved m)],
                         running := remove1 a (running s),
                         activeAnalyses := activeAnalyses s - 1 \<rparr>)"
  have run: "executeAnalysis est computeHash t1 a tsgoOutcome oxcOutcome s = Some s1"
    using enabled st hm unfolding executeAnalysis_def Let_def s1_def m[symmetric] by simp
  have f1: "cache s1 = c'" "cacheEnabled s1" 
    "settlements s1 = settlements s @ [(handle (item a), Resolved m)]"
    using enabled by (simp_all add: s1_def)
  from FileCache_get_hit_full[OF look, of ?h t2] ttl t
  obtain c'' where g: "FileCache_get t2 ?u ?h c' = (Some m, c'')" by auto
  have lk: "cacheLookup computeHash t2 ?u (content (item a)) False s1 = (Some m, s1\<lparr> cache := c'' \<rparr>)"
    by (simp add: cacheLookup_def f1 g)
  have an: "analyzeFile computeHash t2 ?u (content (item a)) False p s1 =
     s1\<lparr> cache := c'', nextHandle := nextHandle s1 + 1,
         settlements := settlements s1 @ [(nextHandle s1, Resolved (m\<lparr> cached := True \<rparr>))] \<rparr>"
    unfolding analyzeFile_def Let_def lk by simp
  show ?thesis
    by (intro exI[of _ s1] conjI run f1(3) cm) (simp_all add: an)
qed

theorem cache_hit_after_analysis_witness:
  "cacheEnabled afterFirstCall \<and> cache_inv (cache afterFirstCall) \<and>
   noEmptyKey (cache afterFirstCall) \<and> accessedBy 1500 (cache afterFirstCall) \<and>
   1 \<le> maxEntries (cache afterFirstCall) \<and>
   estimateSize (mergedResult exampleHash 1500 exampleActive
      (settledResults afterFirstCall (Fulfilled (exampleToolResult Src_tsgo ''m1''))
         (Fulfilled (exampleToolResult Src_oxc ''m2''))))
     \<le> maxSizeBytes (cache afterFirstCall) \<and>
   (1600::int) - 1500 \<le> ttlMs (cache afterFirstCall) \<and>
   (\<exists>s1. executeAnalysis estimateSize exampleHash 1500 exampleActive
            (Fulfilled (exampleToolResult Src_tsgo ''m1''))
            (Fulfilled (exampleToolResult Src_oxc ''m2'')) afterFirstCall = Some s1 \<and>
         settlements (analyzeFile exampleHash 1600 ''file:///a.ts'' ''x'' False Open s1)
           = settlements s1 @
               [(nextHandle s1,
                 Resolved ((mergedResult exampleHash 1500 exampleActive
                    (settledResults afterFirstCall (Fulfilled (exampleToolResult Src_tsgo ''m1''))
                       (Fulfilled (exampleToolResult Src_oxc ''m2''))))\<lparr> cached := True \<rparr>))])"
proof -
  let ?m = "mergedResult exampleHash 1500 exampleActive
      (settledResults afterFirstCall (Fulfilled (exampleToolResult Src_tsgo ''m1''))
         (Fulfilled (exampleToolResult Src_oxc ''m2'')))"
  have c: "cache afterFirstCall = (newFileCache 100 1 300)\<lparr> misses := 1 \<rparr>"
    "cacheEnabled afterFirstCall"
    by (simp_all add: afterFirstCall_value exampleBridge_def newAnalysisBridge_def)
  have h1: "cacheEnabled afterFirstCall" by (rule c)
  have h2: "cache_inv (cache afterFirstCall)" by (simp add: c cache_inv_def newFileCache_def)
  have h3: "noEmptyKey (cache afterFirstCall)" by (simp add: c noEmptyKey_def newFileCache_def)
  have h4: "accessedBy 1500 (cache afterFirstCall)" by (simp add: c accessedBy_def newFileCache_def)
  have h5: "1 \<le> maxEntries (cache afterFirstCall)" by (simp add: c newFileCache_def)
  have h6: "?m = ?m" by (rule refl)
  have h7: "estimateSize ?m \<le> maxSizeBytes (cache afterFirstCall)"
    by code_simp
  have h8: "(1600::int) - 1500 \<le> ttlMs (cache afterFirstCall)" by (simp add: c newFileCache_def)
  have u: "uri (item exampleActive) = ''file:///a.ts''" "content (item exampleActive) = ''x''"
    by (simp_all add: exampleActive_def)
  from cache_hit_after_analysis[where s = afterFirstCall and m = ?m and est = estimateSize
      and computeHash = exampleHash and ?t1.0 = 1500 and ?t2.0 = 1600 and a = exampleActive
      and tsgoOutcome = "Fulfilled (exampleToolResult Src_tsgo ''m1'')"
      and oxcOutcome = "Fulfilled (exampleToolResult Src_oxc ''m2'')" and p = Open,
      OF h1 h2 h3 h4 h5 h6 h7 h8]
  show ?thesis using h1 h2 h3 h4 h5 h7 h8 unfolding u by blast
qed

section \<open>AnalysisBridge: queue facts\<close>

lemma spliceFirst_Some:
  "spliceFirst P xs = (Some x, ys) \<Longrightarrow>
     P x \<and> (\<exists>pre post. xs = pre @ x # post \<and> ys = pre @ post \<and> (\<forall>y\<in>set pre. \<not> P y))"
proof (induction xs arbitrary: ys)
  case Nil
  then show ?case by simp
next
  case (Cons a xs)
  show ?case
  proof (cases "P a")
    case True
    with Cons.prems have "x = a" "ys = xs" by simp_all
    with True show ?thesis by (intro conjI exI[of _ "[]"] exI[of _ xs]) simp_all
  next
    case False
    with Cons.prems obtain zs where r: "spliceFirst P xs = (Some x, zs)" and ys: "ys = a # zs"
      by (auto split: prod.splits)
    from Cons.IH[OF r] obtain pre post where
      "P x" "xs = pre @ x # post" "zs = pre @ post" "\<forall>y\<in>set pre. \<not> P y" by blast
    with False ys show ?thesis
      by (intro conjI exI[of _ "a # pre"] exI[of _ post]) simp_all
  qed
qed

lemma spliceFirst_None:
  "spliceFirst P xs = (None, ys) \<Longrightarrow> ys = xs \<and> (\<forall>x\<in>set xs. \<not> P x)"
  by (induction xs arbitrary: ys) (auto split: if_splits prod.splits)

lemma dispatchLoop_result:
  "dispatchLoop now m q act run = (q', act', run') \<Longrightarrow>
     \<exists>taken. q = taken @ q' \<and>
       run' = run @ map (\<lambda>i. \<lparr> item = i, startTime = now \<rparr>) taken \<and>
       (q' = [] \<or> m \<le> act')"
proof (induction q arbitrary: act run)
  case Nil
  then show ?case by simp
next
  case (Cons it rest)
  show ?case
  proof (cases "act < m")
    case True
    with Cons.prems have
      "dispatchLoop now m rest (act + 1) (run @ [\<lparr> item = it, startTime = now \<rparr>]) = (q', act', run')"
      by simp
    from Cons.IH[OF this] obtain taken where
      "rest = taken @ q'"
      "run' = (run @ [\<lparr> item = it, startTime = now \<rparr>]) @ map (\<lambda>i. \<lparr> item = i, startTime = now \<rparr>) taken"
      "q' = [] \<or> m \<le> act'" by blast
    then show ?thesis by (intro exI[of _ "it # taken"]) simp
  next
    case False
    with Cons.prems show ?thesis by (intro exI[of _ "[]"]) auto
  qed
qed

lemma dispatchLoop_full: "m \<le> act \<Longrightarrow> dispatchLoop now m q act run = (q, act, run)"
  by (cases q) simp_all

lemma processQueue_full:
  "\<not> processing s \<Longrightarrow> maxConcurrentAnalyses s \<le> activeAnalyses s \<Longrightarrow>
   processQueue now s = s\<lparr> queue := queue s, activeAnalyses := activeAnalyses s,
                           running := running s, processing := False \<rparr>"
  by (simp add: processQueue_def dispatchLoop_full)

lemma processQueue_inv:
  assumes np: "\<not> processing s" and du: "distinct (map uri (queue s))"
    and dh: "distinct (allHandles s)" and bd: "\<forall>h\<in>set (allHandles s). h < nextHandle s"
  shows "bridge_inv (processQueue now s) \<and> mset (allHandles (processQueue now s)) = mset (allHandles s)"
proof -
  obtain q' act' run' where
    dl: "dispatchLoop now (maxConcurrentAnalyses s) (queue s) (activeAnalyses s) (running s)
           = (q', act', run')"
    by (cases "dispatchLoop now (maxConcurrentAnalyses s) (queue s) (activeAnalyses s) (running s)")
  from dispatchLoop_result[OF dl] obtain taken where
    q: "queue s = taken @ q'" and
    r: "run' = running s @ map (\<lambda>i. \<lparr> item = i, startTime = now \<rparr>) taken" and
    full: "q' = [] \<or> maxConcurrentAnalyses s \<le> act'" by blast
  have pq: "processQueue now s =
              s\<lparr> queue := q', activeAnalyses := act', running := run', processing := False \<rparr>"
    using np by (simp add: processQueue_def dl)
  have ms: "mset (allHandles (processQueue now s)) = mset (allHandles s)"
    by (simp add: pq allHandles_def q r comp_def)
  have "distinct (allHandles (processQueue now s))"
    using mset_eq_imp_distinct_iff[OF ms] dh by simp
  moreover have "set (allHandles (processQueue now s)) = set (allHandles s)"
    using ms by (rule mset_eq_setD)
  moreover have "distinct (map uri (queue (processQueue now s)))"
    using du by (simp add: pq q)
  ultimately show ?thesis
    using bd full ms unfolding bridge_inv_def by (auto simp: pq)
qed

lemma distinct_map_sort_key:
  "distinct (map g (sort_key f xs)) = distinct (map g xs)"
proof -
  have "mset (map g (sort_key f xs)) = mset (map g xs)" by simp
  then show ?thesis by (rule mset_eq_imp_distinct_iff)
qed

lemma cacheLookup_fields:
  "cacheLookup computeHash now u c f s = (r, s1) \<Longrightarrow>
     queue s1 = queue s \<and> running s1 = running s \<and> settlements s1 = settlements s \<and>
     nextHandle s1 = nextHandle s \<and> processing s1 = processing s \<and>
     maxConcurrentAnalyses s1 = maxConcurrentAnalyses s \<and> activeAnalyses s1 = activeAnalyses s"
  by (auto simp: cacheLookup_def split: if_splits prod.splits)

lemma cacheLookup_inv:
  "cacheLookup computeHash now u c f s = (r, s1) \<Longrightarrow> bridge_inv s \<Longrightarrow>
     bridge_inv s1 \<and> allHandles s1 = allHandles s"
  by (drule cacheLookup_fields) (simp add: bridge_inv_def allHandles_def)

lemma analyzeFile_miss:
  assumes "cacheLookup computeHash now u c f s = (None, s1)"
  shows "analyzeFile computeHash now u c f p s =
           processQueue now
             ((supersede u s1)
                \<lparr> nextHandle := nextHandle s + 1,
                  queue := sort_key (\<lambda>i. priorityValue (priority i))
                             (queue (supersede u s1) @ [newItem now (nextHandle s) u c f p]) \<rparr>)"
  by (simp add: analyzeFile_def assms Let_def)

lemma analyzeFile_hit:
  assumes "cacheLookup computeHash now u c f s = (Some hit, s1)"
  shows "analyzeFile computeHash now u c f p s =
           s1\<lparr> nextHandle := nextHandle s + 1,
               settlements := settlements s1 @ [(nextHandle s, Resolved (hit\<lparr> cached := True \<rparr>))] \<rparr>"
  by (simp add: analyzeFile_def assms Let_def)

lemma supersede_props:
  assumes inv: "bridge_inv s1"
  shows "mset (allHandles (supersede u s1)) = mset (allHandles s1) \<and>
         distinct (map uri (queue (supersede u s1))) \<and>
         (\<forall>i\<in>set (queue (supersede u s1)). uri i \<noteq> u) \<and>
         set (queue (supersede u s1)) \<subseteq> set (queue s1) \<and>
         running (supersede u s1) = running s1 \<and> processing (supersede u s1) = processing s1 \<and>
         nextHandle (supersede u s1) = nextHandle s1 \<and>
         activeAnalyses (supersede u s1) = activeAnalyses s1 \<and>
         maxConcurrentAnalyses (supersede u s1) = maxConcurrentAnalyses s1 \<and>
         (\<forall>old\<in>set (queue s1). uri old = u \<longrightarrow>
            settlements (supersede u s1) = settlements s1 @ [(handle old, Rejected supersededError)] \<and>
            old \<notin> set (queue (supersede u s1)) \<and>
            handle old \<notin> handle ` set (queue (supersede u s1)))"
proof (cases "spliceFirst (\<lambda>i. uri i = u) (queue s1)")
  case (Pair r q')
  from inv have du: "distinct (map uri (queue s1))" and dh: "distinct (allHandles s1)"
    by (simp_all add: bridge_inv_def)
  show ?thesis
  proof (cases r)
    case None
    with Pair have "q' = queue s1" "\<forall>x\<in>set (queue s1). uri x \<noteq> u"
      using spliceFirst_None[of "\<lambda>i. uri i = u" "queue s1" q'] by simp_all
    with None Pair du show ?thesis by (simp add: supersede_def)
  next
    case (Some ex)
    with Pair spliceFirst_Some[of "\<lambda>i. uri i = u" "queue s1" ex q']
    obtain pre post where ex: "uri ex = u" and q: "queue s1 = pre @ ex # post"
      and q': "q' = pre @ post" by blast
    have sup: "supersede u s1 =
        s1\<lparr> settlements := settlements s1 @ [(handle ex, Rejected supersededError)], queue := q' \<rparr>"
      by (simp add: supersede_def Pair Some)
    from du q have "distinct (map uri pre @ uri ex # map uri post)" by simp
    then have "uri ex \<notin> set (map uri pre)" "uri ex \<notin> set (map uri post)" by simp_all
    with ex have others: "\<forall>i\<in>set (pre @ post). uri i \<noteq> u" by (auto simp: image_iff)
    from dh have "distinct (map handle (queue s1))" by (simp add: allHandles_def)
    with q have "distinct (map handle pre @ handle ex # map handle post)" by simp
    then have "handle ex \<notin> set (map handle pre)" "handle ex \<notin> set (map handle post)" by simp_all
    then have hd: "handle ex \<notin> handle ` set (pre @ post)" by (auto simp: image_iff)
    have uniq: "old = ex" if "old \<in> set (queue s1)" "uri old = u" for old
    proof -
      from that(1) q have "old \<in> set (pre @ post) \<or> old = ex" by auto
      with others that(2) show ?thesis by blast
    qed
    have "mset (allHandles (supersede u s1)) = mset (allHandles s1)"
      by (simp add: sup allHandles_def q q')
    moreover have "distinct (map uri (queue (supersede u s1)))"
      using du by (simp add: sup q q')
    moreover have "\<forall>i\<in>set (queue (supersede u s1)). uri i \<noteq> u"
      using others by (simp add: sup q')
    moreover have "set (queue (supersede u s1)) \<subseteq> set (queue s1)"
      by (auto simp: sup q q')
    moreover have "\<forall>old\<in>set (queue s1). uri old = u \<longrightarrow>
            settlements (supersede u s1) = settlements s1 @ [(handle old, Rejected supersededError)] \<and>
            old \<notin> set (queue (supersede u s1)) \<and>
            handle old \<notin> handle ` set (queue (supersede u s1))"
    proof (intro ballI impI)
      fix old assume "old \<in> set (queue s1)" "uri old = u"
      then have "old = ex" by (rule uniq)
      moreover from others ex have "ex \<notin> set (pre @ post)" by blast
      ultimately show "settlements (supersede u s1) = settlements s1 @ [(handle old, Rejected supersededError)] \<and>
            old \<notin> set (queue (supersede u s1)) \<and>
            handle old \<notin> handle ` set (queue (supersede u s1))"
        using hd by (simp add: sup q')
    qed
    ultimately show ?thesis by (simp add: sup)
  qed
qed

section \<open>AnalysisBridge: the invariant holds in every reachable state\<close>

lemma newAnalysisBridge_inv: "bridge_inv (newAnalysisBridge c ce te oe m)"
  by (simp add: bridge_inv_def newAnalysisBridge_def allHandles_def)

lemma analyzeFile_inv:
  assumes inv: "bridge_inv s"
  shows "bridge_inv (analyzeFile computeHash now u c f p s)"
proof (cases "cacheLookup computeHash now u c f s")
  case (Pair r s1)
  from cacheLookup_inv[OF Pair inv] have inv1: "bridge_inv s1" and ah: "allHandles s1 = allHandles s"
    by simp_all
  from cacheLookup_fields[OF Pair] have nh: "nextHandle s1 = nextHandle s" by simp
  let ?n = "nextHandle s"
  from inv have bound: "\<forall>h\<in>set (allHandles s). h < ?n" and dh: "distinct (allHandles s)"
    by (simp_all add: bridge_inv_def)
  then have fresh: "?n \<notin> set (allHandles s)" by auto
  show ?thesis
  proof (cases r)
    case (Some hit)
    let ?s' = "s1\<lparr> nextHandle := ?n + 1,
                  settlements := settlements s1 @ [(?n, Resolved (hit\<lparr> cached := True \<rparr>))] \<rparr>"
    have eq: "analyzeFile computeHash now u c f p s = ?s'"
      using Pair Some by (simp add: analyzeFile_hit)
    have ah': "allHandles ?s' = allHandles s @ [?n]"
      using ah by (simp add: allHandles_def)
    have "bridge_inv ?s'"
      unfolding bridge_inv_def ah'
      using inv1 fresh dh bound by (auto simp: bridge_inv_def)
    with eq show ?thesis by simp
  next
    case None
    let ?sup = "supersede u s1"
    let ?new = "newItem now ?n u c f p"
    let ?s3 = "?sup\<lparr> nextHandle := ?n + 1,
                    queue := sort_key (\<lambda>i. priorityValue (priority i)) (queue ?sup @ [?new]) \<rparr>"
    have eq: "analyzeFile computeHash now u c f p s = processQueue now ?s3"
      using Pair None by (simp add: analyzeFile_miss)
    from supersede_props[OF inv1, of u] have
      ms: "mset (allHandles ?sup) = mset (allHandles s1)" and
      du: "distinct (map uri (queue ?sup))" and
      nou: "\<forall>i\<in>set (queue ?sup). uri i \<noteq> u" and
      np: "processing ?sup = processing s1"
      by simp_all
    have np3: "\<not> processing ?s3" using np inv1 by (simp add: bridge_inv_def)
    have du3: "distinct (map uri (queue ?s3))"
      using du nou by (auto simp: distinct_map_sort_key newItem_def)
    have "mset (allHandles ?s3) = add_mset ?n (mset (allHandles ?sup))"
      by (simp add: allHandles_def newItem_def)
    with ms ah have ms3: "mset (allHandles ?s3) = mset (?n # allHandles s)" by simp
    have dh3: "distinct (allHandles ?s3)"
      using mset_eq_imp_distinct_iff[OF ms3] fresh dh by simp
    have "set (allHandles ?s3) = set (?n # allHandles s)" using ms3 by (rule mset_eq_setD)
    with bound have bd3: "\<forall>h\<in>set (allHandles ?s3). h < nextHandle ?s3" by auto
    from processQueue_inv[OF np3 du3 dh3 bd3] eq show ?thesis by simp
  qed
qed

lemma executeAnalysis_inv:
  assumes inv: "bridge_inv s" and mem: "a \<in> set (running s)"
    and run: "executeAnalysis est computeHash now a t x s = Some s'"
  shows "bridge_inv s'"
proof -
  from run obtain c' m where s': "s' = processQueue now
      (s\<lparr> cache := c', filesAnalyzedCount := filesAnalyzedCount s + 1,
          settlements := settlements s @ [(handle (item a), Resolved m)],
          running := remove1 a (running s), activeAnalyses := activeAnalyses s - 1 \<rparr>)"
    by (auto simp: executeAnalysis_def Let_def split: option.splits if_splits)
  let ?s2 = "s\<lparr> cache := c', filesAnalyzedCount := filesAnalyzedCount s + 1,
          settlements := settlements s @ [(handle (item a), Resolved m)],
          running := remove1 a (running s), activeAnalyses := activeAnalyses s - 1 \<rparr>"
  from mem have "mset (running s) = add_mset a (mset (remove1 a (running s)))" by simp
  then have "mset (map (\<lambda>a. handle (item a)) (running s))
             = add_mset (handle (item a)) (mset (map (\<lambda>a. handle (item a)) (remove1 a (running s))))"
    by (metis mset_map image_mset_add_mset)
  then have ms: "mset (allHandles ?s2) = mset (allHandles s)"
    by (simp add: allHandles_def)
  from inv have dh: "distinct (allHandles s)" and bd: "\<forall>h\<in>set (allHandles s). h < nextHandle s"
    and np: "\<not> processing s" and du: "distinct (map uri (queue s))"
    by (simp_all add: bridge_inv_def)
  have dh2: "distinct (allHandles ?s2)" using mset_eq_imp_distinct_iff[OF ms] dh by simp
  have "set (allHandles ?s2) = set (allHandles s)" using ms by (rule mset_eq_setD)
  with bd have bd2: "\<forall>h\<in>set (allHandles ?s2). h < nextHandle ?s2" by simp
  have "bridge_inv (processQueue now ?s2)"
    using processQueue_inv[of ?s2 now] np du dh2 bd2 by simp
  with s' show ?thesis by simp
qed

lemma shutdown_inv: "bridge_inv s \<Longrightarrow> bridge_inv (shutdown s)"
proof -
  assume inv: "bridge_inv s"
  have "mset (allHandles (shutdown s)) = mset (allHandles s)"
    by (simp add: shutdown_def allHandles_def comp_def)
  then have ms: "mset (allHandles (shutdown s)) = mset (allHandles s)" .
  from inv have dh: "distinct (allHandles s)" and bd: "\<forall>h\<in>set (allHandles s). h < nextHandle s"
    and np: "\<not> processing s"
    by (simp_all add: bridge_inv_def)
  have "distinct (allHandles (shutdown s))" using mset_eq_imp_distinct_iff[OF ms] dh by simp
  moreover have "set (allHandles (shutdown s)) = set (allHandles s)" using ms by (rule mset_eq_setD)
  ultimately show ?thesis
    using bd np unfolding bridge_inv_def by (simp add: shutdown_def)
qed

lemma bridgeStep_inv:
  "bridge_inv s \<Longrightarrow> bridgeStep est computeHash ev s = Some s' \<Longrightarrow> bridge_inv s'"
  by (cases ev) (auto simp: analyzeFile_inv shutdown_inv executeAnalysis_inv split: if_splits)

lemma runEvents_inv:
  "bridge_inv s \<Longrightarrow> runEvents est computeHash evs s = Some s' \<Longrightarrow> bridge_inv s'"
  by (induction evs arbitrary: s) (auto split: option.splits dest: bridgeStep_inv)

section \<open>AnalysisBridge: a queued request is superseded by a newer one\<close>

lemma supersede_step:
  assumes inv: "bridge_inv s"
    and miss: "fst (cacheLookup computeHash now u c f s) = None"
    and old: "old \<in> set (queue s)" and uo: "uri old = u"
  shows "settlements (analyzeFile computeHash now u c f p s)
           = settlements s @ [(handle old, Rejected supersededError)] \<and>
         handle old \<notin> fst ` set (settlements s) \<and>
         old \<notin> set (queue (analyzeFile computeHash now u c f p s)) \<and>
         handle old \<notin> handle ` set (queue (analyzeFile computeHash now u c f p s)) \<and>
         handle old \<notin> (\<lambda>a. handle (item a)) ` set (running (analyzeFile computeHash now u c f p s)) \<and>
         newItem now (nextHandle s) u c f p \<in> set (queue (analyzeFile computeHash now u c f p s)) \<and>
         running (analyzeFile computeHash now u c f p s) = running s"
proof -
  obtain s1 where lk: "cacheLookup computeHash now u c f s = (None, s1)"
    using miss by (cases "cacheLookup computeHash now u c f s") auto
  from cacheLookup_inv[OF lk inv] have inv1: "bridge_inv s1" by simp
  from cacheLookup_fields[OF lk] have
    f: "queue s1 = queue s" "running s1 = running s" "settlements s1 = settlements s"
       "nextHandle s1 = nextHandle s" "processing s1 = processing s"
       "maxConcurrentAnalyses s1 = maxConcurrentAnalyses s" "activeAnalyses s1 = activeAnalyses s"
    by simp_all
  let ?n = "nextHandle s"
  let ?sup = "supersede u s1"
  let ?new = "newItem now ?n u c f p"
  let ?s3 = "?sup\<lparr> nextHandle := ?n + 1,
                  queue := sort_key (\<lambda>i. priorityValue (priority i)) (queue ?sup @ [?new]) \<rparr>"
  from supersede_props[OF inv1, of u] old uo f have
    sp: "running ?sup = running s" "processing ?sup = processing s"
        "activeAnalyses ?sup = activeAnalyses s"
        "maxConcurrentAnalyses ?sup = maxConcurrentAnalyses s"
        "settlements ?sup = settlements s @ [(handle old, Rejected supersededError)]"
        "old \<notin> set (queue ?sup)" "handle old \<notin> handle ` set (queue ?sup)"
    by simp_all
  from inv old have full: "maxConcurrentAnalyses s \<le> activeAnalyses s" and np: "\<not> processing s"
    by (auto simp: bridge_inv_def)
  from inv have dh: "distinct (allHandles s)" and bd: "\<forall>h\<in>set (allHandles s). h < ?n"
    by (simp_all add: bridge_inv_def)
  from old have hq: "handle old \<in> set (map handle (queue s))" by simp
  with bd have lt: "handle old < ?n" by (simp add: allHandles_def)
  from dh hq have nr: "handle old \<notin> (\<lambda>a. handle (item a)) ` set (running s)"
    and ns: "handle old \<notin> fst ` set (settlements s)"
    by (auto simp: allHandles_def)
  have eq: "analyzeFile computeHash now u c f p s = ?s3\<lparr> processing := False \<rparr>"
    unfolding analyzeFile_miss[OF lk]
    using processQueue_full[of ?s3 now] sp np full by simp
  have "old \<noteq> ?new" using lt by (auto simp: newItem_def)
  with sp lt nr ns show ?thesis
    by (simp add: eq) (simp add: newItem_def)
qed

lemma sessionState_reached:
  "runEvents tenBytes exampleHash sessionEvents singleSlotBridge = Some sessionState"
  by (simp add: sessionEvents_def sessionState_def)

lemma sessionState_value:
  "sessionState =
     singleSlotBridge
       \<lparr> cache := (cache singleSlotBridge)\<lparr> misses := 3 \<rparr>,
         queue := [newItem 1001 1 ''file:///b.ts'' ''y'' False Open,
                   newItem 1002 2 ''file:///u.ts'' ''c1'' False Open],
         activeAnalyses := 1,
         running := [firstRunning],
         nextHandle := 3 \<rparr>"
  by code_simp

text \<open>
  Claim C2 as stated (whenever \<^verbatim>\<open>analyzeFile\<close> is called for a uri that has a queued item,
  the older item is rejected and replaced) fails on the code: the cache is consulted
  first, and a hit returns before the deduplication block. In the session, \<^verbatim>\<open>u.ts\<close> with
  content \<^verbatim>\<open>c2\<close> is running, \<^verbatim>\<open>b.ts\<close> and \<^verbatim>\<open>u.ts\<close> with content \<^verbatim>\<open>c1\<close> are queued; the
  running analysis completes and \<^verbatim>\<open>c2\<close> is cached. A new request for \<^verbatim>\<open>u.ts\<close> with
  content \<^verbatim>\<open>c2\<close> is answered from the cache (promise 3) and the queued request for
  \<^verbatim>\<open>u.ts\<close> (promise 2) stays queued and is not rejected.
\<close>

theorem cache_hit_skips_supersede:
  "map_option queueAndSettled
     (runEvents tenBytes exampleHash sessionEventsCompleted singleSlotBridge)
     = Some ([newItem 1002 2 ''file:///u.ts'' ''c1'' False Open], [0]) \<and>
   map_option queueAndSettled
     (runEvents tenBytes exampleHash
        (sessionEventsCompleted @ [EvAnalyze 1600 ''file:///u.ts'' ''c2'' False Active])
        singleSlotBridge)
     = Some ([newItem 1002 2 ''file:///u.ts'' ''c1'' False Open], [0, 3])"
  by code_simp

text \<open>
  Claim C2, amended. In every state the bridge reaches from its initial state, and after
  every further step, the queue holds at most one item per uri and no promise is settled
  twice. When \<^verbatim>\<open>analyzeFile\<close> is called for a uri that has a queued item and the call is
  not answered from the cache, exactly one settlement is added, the rejection of the older
  item's promise with the superseded error; that promise was not settled before, the older
  item is gone from the queue, the new item with its own priority, timestamp and promise
  is queued, and the running analyses are unchanged.
\<close>

theorem queue_dedup_supersede:
  assumes reach: "runEvents est computeHash evs (newAnalysisBridge c0 ce te oe m) = Some s"
    and step: "bridgeStep est computeHash ev s = Some s'"
  shows "distinct (map uri (queue s)) \<and> distinct (map uri (queue s')) \<and>
         distinct (map fst (settlements s')) \<and>
         (\<forall>now u c f p old.
            ev = EvAnalyze now u c f p \<and> fst (cacheLookup computeHash now u c f s) = None \<and>
            old \<in> set (queue s) \<and> uri old = u \<longrightarrow>
              settlements s' = settlements s @ [(handle old, Rejected supersededError)] \<and>
              handle old \<notin> fst ` set (settlements s) \<and>
              old \<notin> set (queue s') \<and>
              handle old \<notin> handle ` set (queue s') \<and>
              handle old \<notin> (\<lambda>a. handle (item a)) ` set (running s') \<and>
              newItem now (nextHandle s) u c f p \<in> set (queue s') \<and>
              running s' = running s)"
proof -
  have inv: "bridge_inv s" using newAnalysisBridge_inv reach by (rule runEvents_inv)
  then have inv': "bridge_inv s'" using step by (rule bridgeStep_inv)
  from inv' have "distinct (map fst (settlements s'))"
    by (simp add: bridge_inv_def allHandles_def)
  moreover have "\<forall>now u c f p old.
            ev = EvAnalyze now u c f p \<and> fst (cacheLookup computeHash now u c f s) = None \<and>
            old \<in> set (queue s) \<and> uri old = u \<longrightarrow>
              settlements s' = settlements s @ [(handle old, Rejected supersededError)] \<and>
              handle old \<notin> fst ` set (settlements s) \<and>
              old \<notin> set (queue s') \<and>
              handle old \<notin> handle ` set (queue s') \<and>
              handle old \<notin> (\<lambda>a. handle (item a)) ` set (running s') \<and>
              newItem now (nextHandle s) u c f p \<in> set (queue s') \<and>
              running s' = running s"
  proof (intro allI impI, elim conjE)
    fix now u c f p old
    assume ev: "ev = EvAnalyze now u c f p" and miss: "fst (cacheLookup computeHash now u c f s) = None"
      and old: "old \<in> set (queue s)" "uri old = u"
    from ev step have s': "s' = analyzeFile computeHash now u c f p s" by simp
    show "settlements s' = settlements s @ [(handle old, Rejected supersededError)] \<and>
              handle old \<notin> fst ` set (settlements s) \<and>
              old \<notin> set (queue s') \<and>
              handle old \<notin> handle ` set (queue s') \<and>
              handle old \<notin> (\<lambda>a. handle (item a)) ` set (running s') \<and>
              newItem now (nextHandle s) u c f p \<in> set (queue s') \<and>
              running s' = running s"
      unfolding s' by (rule supersede_step[OF inv miss old])
  qed
  moreover from inv have "distinct (map uri (queue s))" by (simp add: bridge_inv_def)
  moreover from inv' have "distinct (map uri (queue s'))" by (simp add: bridge_inv_def)
  ultimately show ?thesis by blast
qed

theorem queue_dedup_supersede_witness:
  "runEvents tenBytes exampleHash sessionEvents singleSlotBridge = Some sessionState \<and>
   bridgeStep tenBytes exampleHash (EvAnalyze 1600 ''file:///u.ts'' ''c3'' False Active) sessionState
     = Some (analyzeFile exampleHash 1600 ''file:///u.ts'' ''c3'' False Active sessionState) \<and>
   fst (cacheLookup exampleHash 1600 ''file:///u.ts'' ''c3'' False sessionState) = None \<and>
   newItem 1002 2 ''file:///u.ts'' ''c1'' False Open \<in> set (queue sessionState) \<and>
   settlements (analyzeFile exampleHash 1600 ''file:///u.ts'' ''c3'' False Active sessionState)
     = [(2, Rejected supersededError)] \<and>
   newItem 1600 3 ''file:///u.ts'' ''c3'' False Active
     \<in> set (queue (analyzeFile exampleHash 1600 ''file:///u.ts'' ''c3'' False Active sessionState)) \<and>
   running (analyzeFile exampleHash 1600 ''file:///u.ts'' ''c3'' False Active sessionState)
     = [firstRunning] \<and>
   distinct (map uri (queue (analyzeFile exampleHash 1600 ''file:///u.ts'' ''c3'' False Active
     sessionState)))"
proof -
  let ?ev = "EvAnalyze 1600 ''file:///u.ts'' ''c3'' False Active"
  let ?s' = "analyzeFile exampleHash 1600 ''file:///u.ts'' ''c3'' False Active sessionState"
  let ?old = "newItem 1002 2 ''file:///u.ts'' ''c1'' False Open"
  have reach: "runEvents tenBytes exampleHash sessionEvents
                 (newAnalysisBridge (newFileCache 100 1 300) True True True 1) = Some sessionState"
    using sessionState_reached by (simp add: singleSlotBridge_def)
  have step: "bridgeStep tenBytes exampleHash ?ev sessionState = Some ?s'" by simp
  have miss: "fst (cacheLookup exampleHash 1600 ''file:///u.ts'' ''c3'' False sessionState) = None"
    by (simp add: sessionState_value cacheLookup_def FileCache_get_def singleSlotBridge_def
        newAnalysisBridge_def newFileCache_def)
  have old: "?old \<in> set (queue sessionState)" "uri ?old = ''file:///u.ts''"
    by (simp_all add: sessionState_value newItem_def)
  have st: "settlements sessionState = []" "running sessionState = [firstRunning]"
    "nextHandle sessionState = 3" "handle ?old = 2"
    by (simp_all add: sessionState_value singleSlotBridge_def newAnalysisBridge_def newItem_def)
  from queue_dedup_supersede[OF reach step] miss old
  have "distinct (map uri (queue ?s'))"
    and "settlements ?s' = settlements sessionState @ [(handle ?old, Rejected supersededError)] \<and>
         newItem 1600 (nextHandle sessionState) ''file:///u.ts'' ''c3'' False Active \<in> set (queue ?s') \<and>
         running ?s' = running sessionState"
    by blast+
  with st reach step miss old show ?thesis
    by (simp add: singleSlotBridge_def)
qed

section \<open>AnalysisBridge: merging and deduplicating diagnostics\<close>

lemma map_set_keys: "fst ` set (map_set k v xs) = insert k (fst ` set xs)"
  by (induction xs) (force split: if_splits)+

lemma distinct_map_set: "distinct (map fst xs) \<Longrightarrow> distinct (map fst (map_set k v xs))"
proof (induction xs)
  case Nil
  then show ?case by simp
next
  case (Cons p xs)
  obtain k' v' where p: "p = (k', v')" by (cases p)
  show ?case
  proof (cases "k' = k")
    case True
    with Cons.prems p show ?thesis by simp
  next
    case False
    from Cons have "distinct (map fst (map_set k v xs))" by simp
    moreover from Cons.prems p False have "k' \<notin> fst ` set (map_set k v xs)"
      by (simp add: map_set_keys)
    ultimately show ?thesis using p False by simp
  qed
qed

lemma set_map_set: "set (map_set k v xs) \<subseteq> insert (k, v) (set xs)"
  by (induction xs) (auto split: if_splits)

lemma map_set_values: "snd ` set (map_set k v xs) \<subseteq> insert v (snd ` set xs)"
  using set_map_set[of k v xs] by force

lemma keyed_map_set:
  assumes "\<forall>p\<in>set seen. fst p = diagKey (snd p)"
  shows "\<forall>p\<in>set (map_set (diagKey d) d seen). fst p = diagKey (snd p)"
proof
  fix p assume "p \<in> set (map_set (diagKey d) d seen)"
  with set_map_set[of "diagKey d" d seen] have "p = (diagKey d, d) \<or> p \<in> set seen" by blast
  with assms show "fst p = diagKey (snd p)" by auto
qed

lemma dedupStep_invariant:
  assumes inv: "dedupInv ds seen"
  shows "dedupInv (ds @ [d]) (dedupStep seen d)"
proof -
  from inv have d1: "distinct (map fst seen)"
    and k1: "\<forall>p\<in>set seen. fst p = diagKey (snd p)"
    and s1: "fst ` set seen = diagKey ` set ds"
    and v1: "snd ` set seen \<subseteq> set ds"
    and t1: "\<forall>x\<in>set ds. source x = Src_tsgo \<longrightarrow>
               (\<exists>y. map_of seen (diagKey x) = Some y \<and> source y = Src_tsgo)"
    unfolding dedupInv_def by blast+
  show ?thesis
  proof (cases "map_of seen (diagKey d)")
    case None
    then have st: "dedupStep seen d = seen @ [(diagKey d, d)]"
      by (simp add: dedupStep_def map_set_absent)
    from None have nk: "diagKey d \<notin> fst ` set seen" by (simp add: map_of_eq_None_iff)
    have t2: "\<forall>x\<in>set (ds @ [d]). source x = Src_tsgo \<longrightarrow>
              (\<exists>y. map_of (seen @ [(diagKey d, d)]) (diagKey x) = Some y \<and> source y = Src_tsgo)"
    proof (intro ballI impI)
      fix x assume x: "x \<in> set (ds @ [d])" and tx: "source x = Src_tsgo"
      show "\<exists>y. map_of (seen @ [(diagKey d, d)]) (diagKey x) = Some y \<and> source y = Src_tsgo"
      proof (cases "x \<in> set ds")
        case True
        with t1 tx obtain y where "map_of seen (diagKey x) = Some y" "source y = Src_tsgo" by blast
        then show ?thesis by (simp add: map_add_def)
      next
        case False
        with x have "x = d" by simp
        with tx None show ?thesis by (simp add: map_add_def)
      qed
    qed
    have "distinct (map fst (seen @ [(diagKey d, d)]))" using d1 nk by simp
    moreover have "\<forall>p\<in>set (seen @ [(diagKey d, d)]). fst p = diagKey (snd p)" using k1 by simp
    moreover have "fst ` set (seen @ [(diagKey d, d)]) = diagKey ` set (ds @ [d])"
      using s1 by auto
    moreover have "snd ` set (seen @ [(diagKey d, d)]) \<subseteq> set (ds @ [d])" using v1 by auto
    ultimately show ?thesis unfolding st dedupInv_def using t2 by blast
  next
    case (Some existing)
    from Some have ik: "diagKey d \<in> fst ` set seen"
      by (metis map_of_eq_None_iff option.distinct(1))
    show ?thesis
    proof (cases "source d = Src_tsgo \<and> source existing \<noteq> Src_tsgo")
      case True
      with Some have st: "dedupStep seen d = map_set (diagKey d) d seen"
        by (simp add: dedupStep_def)
      have "distinct (map fst (map_set (diagKey d) d seen))" using d1 by (rule distinct_map_set)
      moreover have "\<forall>p\<in>set (map_set (diagKey d) d seen). fst p = diagKey (snd p)"
        using k1 by (rule keyed_map_set)
      moreover have "fst ` set (map_set (diagKey d) d seen) = diagKey ` set (ds @ [d])"
        using s1 ik by (auto simp: map_set_keys)
      moreover have "snd ` set (map_set (diagKey d) d seen) \<subseteq> set (ds @ [d])"
        using map_set_values[of "diagKey d" d seen] v1 by auto
      moreover have "\<forall>x\<in>set (ds @ [d]). source x = Src_tsgo \<longrightarrow>
              (\<exists>y. map_of (map_set (diagKey d) d seen) (diagKey x) = Some y \<and> source y = Src_tsgo)"
        using t1 True by (auto simp: map_of_map_set)
      ultimately show ?thesis unfolding st dedupInv_def by blast
    next
      case False
      with Some have st: "dedupStep seen d = seen" by (auto simp: dedupStep_def)
      have "fst ` set seen = diagKey ` set (ds @ [d])" using s1 ik by auto
      moreover have "snd ` set seen \<subseteq> set (ds @ [d])" using v1 by auto
      moreover have "\<forall>x\<in>set (ds @ [d]). source x = Src_tsgo \<longrightarrow>
              (\<exists>y. map_of seen (diagKey x) = Some y \<and> source y = Src_tsgo)"
        using t1 False Some by auto
      ultimately show ?thesis unfolding st dedupInv_def using d1 k1 by blast
    qed
  qed
qed

lemma dedupLoop_invariant:
  "dedupInv ds seen \<Longrightarrow> dedupInv (ds @ es) (foldl dedupStep seen es)"
proof (induction es arbitrary: seen ds)
  case Nil
  then show ?case by simp
next
  case (Cons e es)
  from Cons.prems have "dedupInv (ds @ [e]) (dedupStep seen e)" by (rule dedupStep_invariant)
  then have "dedupInv ((ds @ [e]) @ es) (foldl dedupStep (dedupStep seen e) es)" by (rule Cons.IH)
  then show ?case by simp
qed

lemma dedupInv_start: "dedupInv [] []"
  by (simp add: dedupInv_def)

text \<open>
  What \<^verbatim>\<open>deduplicateDiagnostics\<close> guarantees in terms of its own key: one diagnostic per
  key, every key of the input kept, nothing invented, and the tsgo record under a key that
  both tools reported.
\<close>

lemma deduplicateDiagnostics_by_key:
  "distinct (map diagKey (deduplicateDiagnostics ds)) \<and>
   diagKey ` set (deduplicateDiagnostics ds) = diagKey ` set ds \<and>
   set (deduplicateDiagnostics ds) \<subseteq> set ds \<and>
   (\<forall>x\<in>set ds. source x = Src_tsgo \<longrightarrow>
      (\<forall>y\<in>set (deduplicateDiagnostics ds). diagKey y = diagKey x \<longrightarrow> source y = Src_tsgo))"
proof -
  let ?seen = "foldl dedupStep [] ds"
  have "dedupInv ([] @ ds) ?seen" using dedupInv_start by (rule dedupLoop_invariant)
  then have d: "distinct (map fst ?seen)"
    and k: "\<forall>p\<in>set ?seen. fst p = diagKey (snd p)"
    and s: "fst ` set ?seen = diagKey ` set ds"
    and v: "snd ` set ?seen \<subseteq> set ds"
    and t: "\<forall>x\<in>set ds. source x = Src_tsgo \<longrightarrow>
            (\<exists>y. map_of ?seen (diagKey x) = Some y \<and> source y = Src_tsgo)"
    unfolding dedupInv_def append_Nil by blast+
  from k have mk: "map diagKey (map snd ?seen) = map fst ?seen" by simp
  have "distinct (map diagKey (deduplicateDiagnostics ds))"
    unfolding deduplicateDiagnostics_def mk by (rule d)
  moreover have "diagKey ` set (deduplicateDiagnostics ds) = diagKey ` set ds"
  proof -
    have "diagKey ` set (map snd ?seen) = set (map diagKey (map snd ?seen))"
      by (simp only: set_map)
    also have "\<dots> = fst ` set ?seen" unfolding mk by (simp only: set_map)
    finally show ?thesis unfolding deduplicateDiagnostics_def s .
  qed
  moreover have "set (deduplicateDiagnostics ds) \<subseteq> set ds"
    using v by (simp add: deduplicateDiagnostics_def)
  moreover have "\<forall>x\<in>set ds. source x = Src_tsgo \<longrightarrow>
      (\<forall>y\<in>set (deduplicateDiagnostics ds). diagKey y = diagKey x \<longrightarrow> source y = Src_tsgo)"
  proof (intro ballI impI)
    fix x y assume x: "x \<in> set ds" "source x = Src_tsgo"
      and y: "y \<in> set (deduplicateDiagnostics ds)" "diagKey y = diagKey x"
    from t x obtain z where z: "map_of ?seen (diagKey x) = Some z" "source z = Src_tsgo" by blast
    from y(1) obtain p where p: "p \<in> set ?seen" "snd p = y"
      by (auto simp: deduplicateDiagnostics_def)
    with k y(2) have "(diagKey x, y) \<in> set ?seen" by (cases p) auto
    with d have "map_of ?seen (diagKey x) = Some y" by simp
    with z show "source y = Src_tsgo" by simp
  qed
  ultimately show ?thesis by blast
qed

text \<open>Settle-all: a failed tool contributes nothing, the other tool's diagnostics are merged.\<close>

lemma mergedResult_settle_all:
  assumes "tsgoEnabled s" and "oxcEnabled s"
  shows "diagnostics (mergedResult computeHash now a (settledResults s (Failed e) (Fulfilled v)))
           = deduplicateDiagnostics (diagnostics v)"
    and "diagnostics (mergedResult computeHash now a (settledResults s (Fulfilled v) (Failed e)))
           = deduplicateDiagnostics (diagnostics v)"
    and "diagnostics (mergedResult computeHash now a (settledResults s (Fulfilled v) (Fulfilled w)))
           = deduplicateDiagnostics (diagnostics v @ diagnostics w)"
    and "diagnostics (mergedResult computeHash now a (settledResults s (Failed e) (Failed e')))
           = []"
  using assms by (simp_all add: mergedResult_def settledResults_def deduplicateDiagnostics_def)

lemma split_at_colon:
  "CHR '':'' \<notin> set xs \<Longrightarrow> CHR '':'' \<notin> set ys \<Longrightarrow>
   xs @ CHR '':'' # r = ys @ CHR '':'' # r' \<Longrightarrow> xs = ys \<and> r = r'"
proof (induction xs arbitrary: ys)
  case Nil
  then show ?case by (cases ys) auto
next
  case (Cons x xs)
  then show ?case by (cases ys) auto
qed

lemma digit_char: "(n::nat) < 10 \<Longrightarrow> of_char (char_of (48 + n)) = (48 + n :: nat)"
  by simp

lemma digitsValue_showNat: "digitsValue (showNat n) = n"
proof (induction n rule: showNat.induct)
  case (1 n)
  show ?case
  proof (cases "n < 10")
    case True
    then show ?thesis by (subst showNat.simps) (simp add: digit_char del: showNat.simps)
  next
    case False
    have m: "n mod 10 < 10" by simp
    from 1[OF False] have ih: "digitsValue (showNat (n div 10)) = n div 10" .
    have "digitsValue (showNat n) = 10 * digitsValue (showNat (n div 10)) + n mod 10"
      using False by (subst showNat.simps) (simp add: digit_char[OF m] del: showNat.simps)
    with ih show ?thesis by simp
  qed
qed

lemma showNat_inj: "showNat n = showNat m \<Longrightarrow> n = m"
  by (metis digitsValue_showNat)

lemma showNat_chars: "c \<in> set (showNat n) \<Longrightarrow> \<exists>k::nat. k < 10 \<and> c = char_of (48 + k)"
proof (induction n rule: showNat.induct)
  case (1 n)
  show ?case
  proof (cases "n < 10")
    case True
    with 1(2) have "c = char_of (48 + n)" by (subst (asm) showNat.simps) (simp del: showNat.simps)
    with True show ?thesis by blast
  next
    case False
    with 1(2) have "c \<in> set (showNat (n div 10)) \<or> c = char_of (48 + n mod 10)"
      by (subst (asm) showNat.simps) (auto simp del: showNat.simps)
    then show ?thesis
    proof
      assume "c \<in> set (showNat (n div 10))"
      with 1(1)[OF False] show ?thesis .
    next
      assume "c = char_of (48 + n mod 10)"
      moreover have "n mod 10 < 10" by simp
      ultimately show ?thesis by blast
    qed
  qed
qed

lemma digit_not_colon: "(k::nat) < 10 \<Longrightarrow> char_of (48 + k) \<noteq> CHR '':''"
proof
  assume k: "k < 10" and e: "char_of (48 + k) = CHR '':''"
  from e have "of_char (char_of (48 + k)) = (of_char CHR '':'' :: nat)" by simp
  with k show False by (simp add: digit_char)
qed

lemma digit_not_minus: "(k::nat) < 10 \<Longrightarrow> char_of (48 + k) \<noteq> CHR ''-''"
proof
  assume k: "k < 10" and e: "char_of (48 + k) = CHR ''-''"
  from e have "of_char (char_of (48 + k)) = (of_char CHR ''-'' :: nat)" by simp
  with k show False by (simp add: digit_char)
qed

lemma showNat_no_colon: "CHR '':'' \<notin> set (showNat n)"
proof
  assume "CHR '':'' \<in> set (showNat n)"
  from showNat_chars[OF this] obtain k :: nat where "k < 10" "CHR '':'' = char_of (48 + k)" by blast
  with digit_not_colon[of k] show False by simp
qed

lemma showNat_no_minus: "CHR ''-'' \<notin> set (showNat n)"
proof
  assume "CHR ''-'' \<in> set (showNat n)"
  from showNat_chars[OF this] obtain k :: nat where "k < 10" "CHR ''-'' = char_of (48 + k)" by blast
  with digit_not_minus[of k] show False by simp
qed

lemma showNat_nonempty: "showNat n \<noteq> []"
  by (subst showNat.simps) (simp del: showNat.simps)

lemma showNat_hd: "showNat n \<noteq> CHR ''-'' # cs"
  using showNat_no_minus[of n] by (metis list.set_intros(1))

lemma numberToString_no_colon: "CHR '':'' \<notin> set (numberToString i)"
  by (simp add: numberToString_def showNat_no_colon del: showNat.simps)

lemma numberToString_inj: "numberToString i = numberToString j \<Longrightarrow> i = j"
proof -
  assume e: "numberToString i = numberToString j"
  show ?thesis
  proof (cases "i < 0"; cases "j < 0")
    assume "i < 0" "j < 0"
    with e have "showNat (nat (- i)) = showNat (nat (- j))" by (simp add: numberToString_def del: showNat.simps)
    then have "nat (- i) = nat (- j)" by (rule showNat_inj)
    with \<open>i < 0\<close> \<open>j < 0\<close> show ?thesis by simp
  next
    assume "i < 0" "\<not> j < 0"
    with e have "showNat (nat j) = CHR ''-'' # showNat (nat (- i))" by (simp add: numberToString_def del: showNat.simps)
    with showNat_hd show ?thesis by blast
  next
    assume "\<not> i < 0" "j < 0"
    with e have "showNat (nat i) = CHR ''-'' # showNat (nat (- j))" by (simp add: numberToString_def del: showNat.simps)
    with showNat_hd show ?thesis by blast
  next
    assume "\<not> i < 0" "\<not> j < 0"
    with e have "showNat (nat i) = showNat (nat j)" by (simp add: numberToString_def del: showNat.simps)
    then have "nat i = nat j" by (rule showNat_inj)
    with \<open>\<not> i < 0\<close> \<open>\<not> j < 0\<close> show ?thesis by simp
  qed
qed

lemma diagKey_same_file:
  assumes f: "d_file a = d_file b" and k: "diagKey a = diagKey b"
  shows "diagIdentity a = diagIdentity b"
proof -
  from k f have 1:
    "numberToString (line a) @ CHR '':'' # (numberToString (column a) @ CHR '':'' # message a) =
     numberToString (line b) @ CHR '':'' # (numberToString (column b) @ CHR '':'' # message b)"
    by (simp add: diagKey_def)
  from split_at_colon[OF numberToString_no_colon numberToString_no_colon 1]
  have l: "numberToString (line a) = numberToString (line b)"
    and 2: "numberToString (column a) @ CHR '':'' # message a =
            numberToString (column b) @ CHR '':'' # message b" by simp_all
  from split_at_colon[OF numberToString_no_colon numberToString_no_colon 2]
  have c: "numberToString (column a) = numberToString (column b)" and m: "message a = message b"
    by simp_all
  from l c m f numberToString_inj show ?thesis by (auto simp add: diagIdentity_def)
qed

lemma deduplicateDiagnostics_single_file:
  assumes f: "\<forall>x\<in>set ds. d_file x = f"
  shows "distinct (map diagIdentity (deduplicateDiagnostics ds)) \<and>
         diagIdentity ` set (deduplicateDiagnostics ds) = diagIdentity ` set ds"
proof -
  note k = deduplicateDiagnostics_by_key[of ds]
  from k have dk: "distinct (map diagKey (deduplicateDiagnostics ds))"
    and im: "diagKey ` set (deduplicateDiagnostics ds) = diagKey ` set ds"
    and sub: "set (deduplicateDiagnostics ds) \<subseteq> set ds" by blast+
  have key: "diagKey x = diagKey y" if e: "diagIdentity x = diagIdentity y" for x y
  proof -
    from e have "d_file x = d_file y" "line x = line y" "column x = column y"
      "message x = message y" unfolding diagIdentity_def by blast+
    then show ?thesis unfolding diagKey_def by (simp only:)
  qed
  from dk have dd: "distinct (deduplicateDiagnostics ds)"
    and ik: "inj_on diagKey (set (deduplicateDiagnostics ds))"
    unfolding distinct_map by blast+
  have "inj_on diagIdentity (set (deduplicateDiagnostics ds))"
  proof (rule inj_onI)
    fix x y
    assume x: "x \<in> set (deduplicateDiagnostics ds)" and y: "y \<in> set (deduplicateDiagnostics ds)"
      and e: "diagIdentity x = diagIdentity y"
    from ik key[OF e] x y show "x = y" by (rule inj_onD)
  qed
  with dd have "distinct (map diagIdentity (deduplicateDiagnostics ds))"
    unfolding distinct_map by blast
  moreover have "diagIdentity ` set (deduplicateDiagnostics ds) = diagIdentity ` set ds"
  proof
    show "diagIdentity ` set (deduplicateDiagnostics ds) \<subseteq> diagIdentity ` set ds"
      using sub by blast
    show "diagIdentity ` set ds \<subseteq> diagIdentity ` set (deduplicateDiagnostics ds)"
    proof
      fix i assume "i \<in> diagIdentity ` set ds"
      then obtain x where x: "x \<in> set ds" "i = diagIdentity x" by blast
      from x(1) have "diagKey x \<in> diagKey ` set (deduplicateDiagnostics ds)"
        unfolding im by blast
      then obtain y where y: "y \<in> set (deduplicateDiagnostics ds)" "diagKey y = diagKey x"
        by (metis imageE)
      from y(1) sub have "y \<in> set ds" by blast
      with f x(1) have "d_file y = d_file x" by simp
      from diagKey_same_file[OF this y(2)] x(2) y(1)
      show "i \<in> diagIdentity ` set (deduplicateDiagnostics ds)" by (metis imageI)
    qed
  qed
  ultimately show ?thesis by blast
qed

lemma collidingKeys:
  "diagKey collidingTsgoDiag = ''a:1:2:3:x''" "diagKey collidingOxcDiag = ''a:1:2:3:x''"
  by code_simp+

text \<open>
  Claim C6 (settle-all merge; deduplication by the key (file, line, column, message), the
  tsgo record kept on a conflict) against the code at two diagnostics that differ in all
  four fields. The key of the code is the text \<^verbatim>\<open>file:line:column:message\<close>, and both
  diagnostics give \<^verbatim>\<open>a:1:2:3:x\<close>: the oxc diagnostic is dropped although no diagnostic
  with its file, line, column and message is kept. The lemmas \<open>mergedResult_settle_all\<close>
  and \<open>deduplicateDiagnostics_by_key\<close> above show the claim for the key the code builds,
  and \<open>deduplicateDiagnostics_single_file\<close> shows it for the four fields when all
  diagnostics name the same file.
\<close>

theorem key_collision_drops_diagnostic:
  "diagIdentity collidingTsgoDiag \<noteq> diagIdentity collidingOxcDiag \<and>
   diagKey collidingTsgoDiag = diagKey collidingOxcDiag \<and>
   deduplicateDiagnostics [collidingTsgoDiag, collidingOxcDiag] = [collidingTsgoDiag] \<and>
   diagnostics (mergedResult exampleHash 1500 exampleActive
      (settledResults exampleBridge
         (Fulfilled ((exampleToolResult Src_tsgo ''m'')\<lparr> diagnostics := [collidingTsgoDiag] \<rparr>))
         (Fulfilled ((exampleToolResult Src_oxc ''m'')\<lparr> diagnostics := [collidingOxcDiag] \<rparr>))))
     = [collidingTsgoDiag]"
  by code_simp

section \<open>TsgoIntegration: timeouts and worker exits\<close>

lemma dispatch_example:
  "dispatch exampleRequest examplePool =
     examplePool\<lparr> pool := [exampleWorker\<lparr> busy := True, activeFile := Some ''file:///a.ts'',
                                requestCount := 1, stdoutListeners := [0] \<rparr>],
                  timers := [0] \<rparr>"
  by (simp add: dispatch_def examplePool_def exampleWorker_def exampleRequest_def
      sendToProcess_def updateProc_def)

lemma response_cleans_up:
  "onData 1 ''{}'' (dispatch exampleRequest examplePool) =
     examplePool\<lparr> pool := [exampleWorker\<lparr> requestCount := 1 \<rparr>],
                  tsgoSettlements := [(0, TsgoResolved ''{}'')] \<rparr>"
  by code_simp

text \<open>
  Claim C3 (on a timeout the request is failed, its stdout listener is removed, the worker
  is marked idle and is not killed) against the code at a pool of one worker. The request
  is sent to the worker and its timer fires: the promise is rejected and the worker stays
  in the pool, but the worker is still busy and the listener of the request is still
  attached, so a second request finds no idle worker and is queued. The response path
  (\<open>response_cleans_up\<close>) does remove the listener and mark the worker idle.
\<close>

theorem timeout_leaves_listener_and_busy:
  "onTimeout 0 (dispatch exampleRequest examplePool) =
     examplePool\<lparr> pool := [exampleWorker\<lparr> busy := True, activeFile := Some ''file:///a.ts'',
                                requestCount := 1, stdoutListeners := [0] \<rparr>],
                  tsgoSettlements := [(0, TsgoRejected timeoutError)] \<rparr> \<and>
   pendingRequests (dispatch secondRequest (onTimeout 0 (dispatch exampleRequest examplePool)))
     = [secondRequest]"
  by code_simp

section \<open>TsgoIntegration: a request whose worker exits is left to its timer\<close>

lemma settle_fields [simp]:
  "pool (settle h outcome s) = pool s"
  "pendingRequests (settle h outcome s) = pendingRequests s"
  "poolSize (settle h outcome s) = poolSize s"
  "shuttingDown (settle h outcome s) = shuttingDown s"
  "respawning (settle h outcome s) = respawning s"
  "timers (settle h outcome s) = timers s"
  "nextPid (settle h outcome s) = nextPid s"
  "spawnCount (settle h outcome s) = spawnCount s"
  by (simp_all add: settle_def)

lemma settle_settled:
  "fst ` set (tsgoSettlements (settle h outcome s)) = insert h (fst ` set (tsgoSettlements s))"
  by (auto simp add: settle_def)

lemma listening_settle [simp]: "listening (settle h outcome s) = listening s"
  by (simp add: listening_def)

lemma updateProc_fields [simp]:
  "pendingRequests (updateProc p f s) = pendingRequests s"
  "poolSize (updateProc p f s) = poolSize s"
  "shuttingDown (updateProc p f s) = shuttingDown s"
  "respawning (updateProc p f s) = respawning s"
  "timers (updateProc p f s) = timers s"
  "tsgoSettlements (updateProc p f s) = tsgoSettlements s"
  "nextPid (updateProc p f s) = nextPid s"
  "spawnCount (updateProc p f s) = spawnCount s"
  by (simp_all add: updateProc_def)

lemma updateProc_pids:
  "(\<And>w. pid (f w) = pid w) \<Longrightarrow> map pid (pool (updateProc p f s)) = map pid (pool s)"
  by (simp add: updateProc_def o_def cong: map_cong)

lemma updateProc_listening:
  "(\<And>w. set (stdoutListeners (f w)) \<subseteq> insert x (set (stdoutListeners w))) \<Longrightarrow>
   set (listening (updateProc p f s)) \<subseteq> insert x (set (listening s))"
proof
  fix y
  assume f: "\<And>w. set (stdoutListeners (f w)) \<subseteq> insert x (set (stdoutListeners w))"
    and "y \<in> set (listening (updateProc p f s))"
  then obtain w where w: "w \<in> set (pool s)"
    and y: "y \<in> set (stdoutListeners (if pid w = p then f w else w))"
    by (auto simp add: updateProc_def listening_def)
  show "y \<in> insert x (set (listening s))"
  proof (cases "pid w = p")
    case True
    with y f[of w] have "y = x \<or> y \<in> set (stdoutListeners w)" by auto
    with w show ?thesis by (auto simp add: listening_def)
  next
    case False
    with y w show ?thesis by (auto simp add: listening_def)
  qed
qed

lemma updateProc_listening_same:
  "(\<And>w. set (stdoutListeners (f w)) \<subseteq> set (stdoutListeners w)) \<Longrightarrow>
   set (listening (updateProc p f s)) \<subseteq> set (listening s)"
  by (fastforce simp add: updateProc_def listening_def)

lemma sendToProcess_fields [simp]:
  "pendingRequests (sendToProcess p r s) = pendingRequests s"
  "poolSize (sendToProcess p r s) = poolSize s"
  "shuttingDown (sendToProcess p r s) = shuttingDown s"
  "respawning (sendToProcess p r s) = respawning s"
  "nextPid (sendToProcess p r s) = nextPid s"
  "spawnCount (sendToProcess p r s) = spawnCount s"
  by (simp_all add: sendToProcess_def Let_def split: option.split)

lemma sendToProcess_pids [simp]: "map pid (pool (sendToProcess p r s)) = map pid (pool s)"
  by (simp add: sendToProcess_def Let_def updateProc_pids split: option.split)

lemma sendToProcess_timers:
  "h \<in> set (timers s) \<Longrightarrow> h \<noteq> p_handle r \<Longrightarrow> h \<in> set (timers (sendToProcess p r s))"
  by (simp add: sendToProcess_def Let_def split: option.split)

lemma sendToProcess_settled:
  "fst ` set (tsgoSettlements (sendToProcess p r s)) \<subseteq>
     insert (p_handle r) (fst ` set (tsgoSettlements s))"
  by (auto simp add: sendToProcess_def Let_def settle_settled split: option.split)

lemma sendToProcess_listening:
  "set (listening (sendToProcess p r s)) \<subseteq> insert (p_handle r) (set (listening s))"
proof -
  let ?mark = "\<lambda>w. w\<lparr> busy := True, activeFile := Some (p_uri r),
                         requestCount := requestCount w + 1 \<rparr>"
  let ?s1 = "updateProc p ?mark s"
  have 1: "set (listening ?s1) \<subseteq> set (listening s)"
    by (rule updateProc_listening_same) simp
  have 2: "set (listening (updateProc p (\<lambda>w. w\<lparr> busy := False, activeFile := None \<rparr>) ?s1))
             \<subseteq> set (listening ?s1)"
    by (rule updateProc_listening_same) simp
  have 3: "set (listening (updateProc p
              (\<lambda>w. w\<lparr> stdoutListeners := stdoutListeners w @ [p_handle r] \<rparr>) ?s1))
             \<subseteq> insert (p_handle r) (set (listening ?s1))"
    by (rule updateProc_listening) auto
  have t: "listening (x\<lparr> timers := ts \<rparr>) = listening x" for x :: TsgoIntegration and ts
    by (simp add: listening_def)
  show ?thesis
    using 1 2 3 by (auto simp add: sendToProcess_def Let_def t split: option.split)
qed

lemma sendToProcess_awaitsTimer:
  "awaitsTimer h s \<Longrightarrow> h \<noteq> p_handle r \<Longrightarrow> awaitsTimer h (sendToProcess p r s)"
  unfolding awaitsTimer_def
  using sendToProcess_timers[of h s r p] sendToProcess_settled[of p r s]
    sendToProcess_listening[of p r s] by blast

lemma awaitsTimer_pending [simp]:
  "awaitsTimer h (s\<lparr> pendingRequests := q \<rparr>) = awaitsTimer h s"
  by (simp add: awaitsTimer_def listening_def)

lemma dispatchPendingLoop_awaitsTimer:
  "awaitsTimer h s \<Longrightarrow> h \<notin> p_handle ` set q \<Longrightarrow>
   awaitsTimer h (dispatchPendingLoop q s) \<and>
   set (pendingRequests (dispatchPendingLoop q s)) \<subseteq> set q"
proof (induction q arbitrary: s)
  case Nil
  then show ?case by simp
next
  case (Cons r rest)
  show ?case
  proof (cases "find (\<lambda>w. \<not> busy w) (pool s)")
    case None
    with Cons.prems show ?thesis by simp
  next
    case (Some idle)
    from Cons.prems have "awaitsTimer h (sendToProcess (pid idle) r (s\<lparr> pendingRequests := rest \<rparr>))"
      by (intro sendToProcess_awaitsTimer) auto
    moreover from Cons.prems have "h \<notin> p_handle ` set rest" by auto
    ultimately have "awaitsTimer h (dispatchPendingLoop rest
                        (sendToProcess (pid idle) r (s\<lparr> pendingRequests := rest \<rparr>))) \<and>
       set (pendingRequests (dispatchPendingLoop rest
                        (sendToProcess (pid idle) r (s\<lparr> pendingRequests := rest \<rparr>)))) \<subseteq> set rest"
      by (rule Cons.IH)
    with Some show ?thesis by auto
  qed
qed

lemma dispatchPendingLoop_fields:
  "map pid (pool (dispatchPendingLoop q s)) = map pid (pool s) \<and>
   poolSize (dispatchPendingLoop q s) = poolSize s \<and>
   shuttingDown (dispatchPendingLoop q s) = shuttingDown s \<and>
   respawning (dispatchPendingLoop q s) = respawning s \<and>
   nextPid (dispatchPendingLoop q s) = nextPid s \<and>
   spawnCount (dispatchPendingLoop q s) = spawnCount s"
proof (induction q arbitrary: s)
  case Nil
  then show ?case by simp
next
  case (Cons r rest)
  show ?case
  proof (cases "find (\<lambda>w. \<not> busy w) (pool s)")
    case None
    then show ?thesis by simp
  next
    case (Some idle)
    from Cons.IH[of "sendToProcess (pid idle) r (s\<lparr> pendingRequests := rest \<rparr>)"] Some
    show ?thesis by simp
  qed
qed

lemma dispatchPendingLoop_saturates:
  "pendingRequests (dispatchPendingLoop q s) \<noteq> [] \<Longrightarrow>
   list_all busy (pool (dispatchPendingLoop q s))"
proof (induction q arbitrary: s)
  case Nil
  then show ?case by simp
next
  case (Cons r rest)
  show ?case
  proof (cases "find (\<lambda>w. \<not> busy w) (pool s)")
    case None
    then have "list_all busy (pool s)" by (auto simp add: find_None_iff list_all_iff)
    with None show ?thesis by simp
  next
    case (Some idle)
    with Cons.prems Cons.IH[of "sendToProcess (pid idle) r (s\<lparr> pendingRequests := rest \<rparr>)"]
    show ?thesis by simp
  qed
qed

lemma leftToTimer_iff:
  "leftToTimer h s \<longleftrightarrow> awaitsTimer h s \<and> h \<notin> p_handle ` set (pendingRequests s)"
  by (auto simp add: leftToTimer_def awaitsTimer_def)

lemma dispatchPending_leftToTimer: "leftToTimer h s \<Longrightarrow> leftToTimer h (dispatchPending s)"
  unfolding leftToTimer_iff dispatchPending_def
  using dispatchPendingLoop_awaitsTimer[of h s "pendingRequests s"] by blast

lemma spliceFirst_subset: "set (snd (spliceFirst P xs)) \<subseteq> set xs"
  by (induction xs) (auto split: prod.splits)

lemma awaitsTimer_more_timers:
  "awaitsTimer h s \<Longrightarrow> awaitsTimer h (s\<lparr> timers := timers s @ ts \<rparr>)"
  by (simp add: awaitsTimer_def listening_def)

lemma dispatch_leftToTimer:
  assumes l: "leftToTimer h s" and r: "p_handle r \<noteq> h"
  shows "leftToTimer h (dispatch r s)"
proof -
  let ?s1 = "s\<lparr> timers := timers s @ [p_handle r] \<rparr>"
  from l have a: "awaitsTimer h ?s1" and q: "h \<notin> p_handle ` set (pendingRequests s)"
    unfolding leftToTimer_iff by (auto intro: awaitsTimer_more_timers)
  show ?thesis
  proof (cases "find (\<lambda>w. \<not> busy w) (pool s)")
    case None
    with a q r show ?thesis unfolding leftToTimer_iff by (auto simp add: dispatch_def Let_def)
  next
    case (Some idle)
    from a r have "awaitsTimer h (sendToProcess (pid idle) r ?s1)"
      by (intro sendToProcess_awaitsTimer) auto
    with Some q show ?thesis unfolding leftToTimer_iff by (simp add: dispatch_def Let_def)
  qed
qed

lemma onTimeout_leftToTimer:
  assumes l: "leftToTimer h s" and r: "h' \<noteq> h"
  shows "leftToTimer h (onTimeout h' s)"
proof (cases "h' \<in> set (timers s)")
  case False
  with l show ?thesis by (simp add: onTimeout_def)
next
  case True
  let ?q = "snd (spliceFirst (\<lambda>q. p_handle q = h') (pendingRequests s))"
  let ?s1 = "s\<lparr> timers := remove1 h' (timers s), pendingRequests := ?q \<rparr>"
  from l r have t: "h \<in> set (timers ?s1)" by (simp add: leftToTimer_def)
  from l have u: "h \<notin> fst ` set (tsgoSettlements ?s1)" by (simp add: leftToTimer_def)
  from l have li: "h \<notin> set (listening ?s1)" by (simp add: leftToTimer_def listening_def)
  from l spliceFirst_subset[of "\<lambda>q. p_handle q = h'" "pendingRequests s"]
  have pq: "h \<notin> p_handle ` set (pendingRequests ?s1)" by (auto simp add: leftToTimer_def)
  from t u li pq r have "leftToTimer h (settle h' (TsgoRejected timeoutError) ?s1)"
    unfolding leftToTimer_def by (simp add: settle_settled)
  with True show ?thesis by (simp add: onTimeout_def)
qed

lemma listenerFire_leftToTimer:
  assumes l: "leftToTimer h s" and r: "h' \<noteq> h"
  shows "leftToTimer h (listenerFire p response s h')"
proof -
  let ?f = "\<lambda>w. w\<lparr> busy := False, activeFile := None,
                      stdoutListeners := remove1 h' (stdoutListeners w) \<rparr>"
  let ?s1 = "(updateProc p ?f s)\<lparr> timers := remove1 h' (timers s) \<rparr>"
  have "set (listening (updateProc p ?f s)) \<subseteq> set (listening s)"
    by (rule updateProc_listening_same) (simp add: set_remove1_subset)
  moreover have "listening ?s1 = listening (updateProc p ?f s)" by (simp add: listening_def)
  ultimately have li: "h \<notin> set (listening ?s1)" using l by (auto simp add: leftToTimer_def)
  from l r have t: "h \<in> set (timers ?s1)" by (simp add: leftToTimer_def)
  from l have u: "h \<notin> fst ` set (tsgoSettlements ?s1)" by (simp add: leftToTimer_def)
  from l have pq: "h \<notin> p_handle ` set (pendingRequests ?s1)" by (simp add: leftToTimer_def)
  from t u li pq r have "leftToTimer h (settle h' (TsgoResolved response) ?s1)"
    unfolding leftToTimer_def by (simp add: settle_settled)
  then show ?thesis unfolding listenerFire_def by (rule dispatchPending_leftToTimer)
qed

lemma listenerFire_fold_leftToTimer:
  "leftToTimer h s \<Longrightarrow> h \<notin> set hs \<Longrightarrow> leftToTimer h (foldl (listenerFire p response) s hs)"
proof (induction hs arbitrary: s)
  case Nil
  then show ?case by simp
next
  case (Cons a hs)
  from Cons.prems have "leftToTimer h (listenerFire p response s a)"
    by (intro listenerFire_leftToTimer) auto
  with Cons show ?case by simp
qed

lemma onData_leftToTimer:
  assumes l: "leftToTimer h s"
  shows "leftToTimer h (onData p response s)"
proof -
  have "set (concat (map stdoutListeners (filter (\<lambda>w. pid w = p) (pool s)))) \<subseteq> set (listening s)"
    by (auto simp add: listening_def)
  with l have "h \<notin> set (concat (map stdoutListeners (filter (\<lambda>w. pid w = p) (pool s))))"
    by (auto simp add: leftToTimer_def)
  with l show ?thesis unfolding onData_def by (rule listenerFire_fold_leftToTimer)
qed

lemma filter_updated_pool:
  "(\<And>w. pid (f w) = pid w) \<Longrightarrow>
   filter (\<lambda>w. pid w \<noteq> p) (map (\<lambda>w. if pid w = p then f w else w) ws) =
   filter (\<lambda>w. pid w \<noteq> p) ws"
  by (induction ws) auto

lemma onExit_unfold:
  "onExit p spawnThrows s =
     (let s1 = s\<lparr> pool := filter (\<lambda>w. pid w \<noteq> p) (pool s) \<rparr> in
      if \<not> shuttingDown s \<and> \<not> respawning s \<and> length (pool s1) < poolSize s
      then (if spawnThrows then s1\<lparr> respawning := False \<rparr>
            else (dispatchPending
                    (s1\<lparr> respawning := True, nextPid := nextPid s + 1,
                        spawnCount := spawnCount s + 1,
                        pool := pool s1 @
                          [\<lparr> pid = nextPid s, busy = False, activeFile = None, requestCount = 0,
                             stdoutListeners = [], hasPipes = True, stdinBroken = False \<rparr>] \<rparr>))
                   \<lparr> respawning := False \<rparr>)
      else s1)"
proof -
  let ?f = "\<lambda>w. if busy w
                then w\<lparr> stdoutListeners := [], busy := False, activeFile := None \<rparr> else w"
  have "filter (\<lambda>w. pid w \<noteq> p) (map (\<lambda>w. if pid w = p then ?f w else w) (pool s)) =
        filter (\<lambda>w. pid w \<noteq> p) (pool s)"
    by (rule filter_updated_pool) simp
  then show ?thesis
    by (simp add: onExit_def updateProc_def spawnProcess_def Let_def)
qed

lemma leftToTimer_respawning [simp]:
  "leftToTimer h (s\<lparr> respawning := b \<rparr>) = leftToTimer h s"
  by (simp add: leftToTimer_def listening_def)

lemma leftToTimer_fewer_workers:
  "leftToTimer h s \<Longrightarrow> leftToTimer h (s\<lparr> pool := filter P (pool s) \<rparr>)"
  by (auto simp add: leftToTimer_def listening_def)

lemma leftToTimer_spawned:
  assumes "leftToTimer h s" and "stdoutListeners w = []"
  shows "leftToTimer h (s\<lparr> respawning := b, nextPid := n, spawnCount := c, pool := pool s @ [w] \<rparr>)"
  using assms by (simp add: leftToTimer_def listening_def)

lemma respawn_leftToTimer:
  assumes l: "leftToTimer h s1"
  shows "leftToTimer h
     (if g then (if spawnThrows then s1\<lparr> respawning := False \<rparr>
                 else (dispatchPending
                         (s1\<lparr> respawning := True, nextPid := n, spawnCount := c,
                             pool := pool s1 @
                               [\<lparr> pid = k, busy = False, activeFile = None, requestCount = 0,
                                  stdoutListeners = [], hasPipes = True, stdinBroken = False \<rparr>] \<rparr>))
                        \<lparr> respawning := False \<rparr>)
      else s1)"
proof -
  have "leftToTimer h (s1\<lparr> respawning := True, nextPid := n, spawnCount := c,
                             pool := pool s1 @
                               [\<lparr> pid = k, busy = False, activeFile = None, requestCount = 0,
                                  stdoutListeners = [], hasPipes = True, stdinBroken = False \<rparr>] \<rparr>)"
    using l by (rule leftToTimer_spawned) simp
  then have "leftToTimer h (dispatchPending (s1\<lparr> respawning := True, nextPid := n, spawnCount := c,
                             pool := pool s1 @
                               [\<lparr> pid = k, busy = False, activeFile = None, requestCount = 0,
                                  stdoutListeners = [], hasPipes = True, stdinBroken = False \<rparr>] \<rparr>))"
    by (rule dispatchPending_leftToTimer)
  with l show ?thesis by simp
qed

lemma onExit_leftToTimer:
  assumes l: "leftToTimer h s"
  shows "leftToTimer h (onExit p spawnThrows s)"
proof -
  from l have "leftToTimer h (s\<lparr> pool := filter (\<lambda>w. pid w \<noteq> p) (pool s) \<rparr>)"
    by (rule leftToTimer_fewer_workers)
  then show ?thesis unfolding onExit_unfold Let_def by (rule respawn_leftToTimer)
qed

lemma shutdown_fold_leftToTimer:
  "leftToTimer h st \<Longrightarrow> h \<notin> p_handle ` set rs \<Longrightarrow>
   leftToTimer h (foldl (\<lambda>st r. settle (p_handle r) (TsgoRejected tsgoShutdownError)
                           (st\<lparr> timers := remove1 (p_handle r) (timers st) \<rparr>)) st rs)"
proof (induction rs arbitrary: st)
  case Nil
  then show ?case by simp
next
  case (Cons r rs)
  from Cons.prems have ne: "p_handle r \<noteq> h" by auto
  with Cons.prems(1)
  have "leftToTimer h (settle (p_handle r) (TsgoRejected tsgoShutdownError)
                           (st\<lparr> timers := remove1 (p_handle r) (timers st) \<rparr>))"
    unfolding leftToTimer_def by (auto simp add: settle_settled listening_def)
  from Cons.IH[OF this] Cons.prems(2) show ?case by simp
qed

lemma leftToTimer_shuttingDown [simp]:
  "leftToTimer h (s\<lparr> shuttingDown := b \<rparr>) = leftToTimer h s"
  by (simp add: leftToTimer_def listening_def)

lemma leftToTimer_no_pending:
  "leftToTimer h s \<Longrightarrow> leftToTimer h (s\<lparr> pendingRequests := [] \<rparr>)"
  by (simp add: leftToTimer_def listening_def)

lemma tsgoShutdown_leftToTimer:
  assumes l: "leftToTimer h s"
  shows "leftToTimer h (tsgoShutdown s)"
proof (cases "shuttingDown s")
  case True
  with l show ?thesis by (simp add: tsgoShutdown_def)
next
  case False
  from l have "leftToTimer h (s\<lparr> shuttingDown := True \<rparr>)" by simp
  moreover from l have "h \<notin> p_handle ` set (pendingRequests s)" by (simp add: leftToTimer_def)
  ultimately have "leftToTimer h
     (foldl (\<lambda>st r. settle (p_handle r) (TsgoRejected tsgoShutdownError)
                           (st\<lparr> timers := remove1 (p_handle r) (timers st) \<rparr>))
              (s\<lparr> shuttingDown := True \<rparr>) (pendingRequests s))"
    by (rule shutdown_fold_leftToTimer)
  then have "leftToTimer h
     ((foldl (\<lambda>st r. settle (p_handle r) (TsgoRejected tsgoShutdownError)
                           (st\<lparr> timers := remove1 (p_handle r) (timers st) \<rparr>))
              (s\<lparr> shuttingDown := True \<rparr>) (pendingRequests s))\<lparr> pendingRequests := [] \<rparr>)"
    by (rule leftToTimer_no_pending)
  with False show ?thesis by (simp add: tsgoShutdown_def)
qed

lemma shutdownDone_leftToTimer: "leftToTimer h s \<Longrightarrow> leftToTimer h (shutdownDone s)"
  by (simp add: leftToTimer_def listening_def shutdownDone_def)

lemma tsgoStep_leftToTimer:
  assumes l: "leftToTimer h s" and t: "ev \<noteq> TsTimeout h"
    and d: "\<And>r. ev = TsDispatch r \<Longrightarrow> p_handle r \<noteq> h"
  shows "leftToTimer h (tsgoStep ev s)"
proof (cases ev)
  case (TsDispatch r)
  with l d show ?thesis by (simp add: dispatch_leftToTimer)
next
  case (TsData p response)
  with l show ?thesis by (simp add: onData_leftToTimer)
next
  case (TsExit p b)
  with l show ?thesis by (simp add: onExit_leftToTimer)
next
  case (TsTimeout h')
  with t have "h' \<noteq> h" by simp
  with l TsTimeout show ?thesis by (simp add: onTimeout_leftToTimer)
next
  case TsShutdown
  with l show ?thesis by (simp add: tsgoShutdown_leftToTimer)
next
  case TsShutdownDone
  with l show ?thesis by (simp add: shutdownDone_leftToTimer)
qed

lemma tsgoRun_leftToTimer:
  "leftToTimer h s \<Longrightarrow> TsTimeout h \<notin> set evs \<Longrightarrow>
   (\<And>r. TsDispatch r \<in> set evs \<Longrightarrow> p_handle r \<noteq> h) \<Longrightarrow>
   leftToTimer h (tsgoRun evs s)"
proof (induction evs arbitrary: s)
  case Nil
  then show ?case by (simp add: tsgoRun_def)
next
  case (Cons ev evs)
  from Cons.prems have "leftToTimer h (tsgoStep ev s)"
    by (intro tsgoStep_leftToTimer) auto
  from Cons.IH[OF this] Cons.prems show ?case by (simp add: tsgoRun_def)
qed

lemma onTimeout_rejects:
  assumes t: "h \<in> set (timers s)" and u: "h \<notin> fst ` set (tsgoSettlements s)"
  shows "filter (\<lambda>x. fst x = h) (tsgoSettlements (onTimeout h s)) =
           [(h, TsgoRejected timeoutError)]"
proof -
  from u have "filter (\<lambda>x. fst x = h) (tsgoSettlements s) = []"
    by (auto simp add: filter_empty_conv)
  with t u show ?thesis by (simp add: onTimeout_def settle_def)
qed

lemma onExit_spawnCount:
  "spawnCount (onExit q b t) \<le> spawnCount t + 1 \<and>
   (respawning t \<or> shuttingDown t \<longrightarrow> spawnCount (onExit q b t) = spawnCount t)"
  by (simp add: onExit_unfold Let_def dispatchPending_def dispatchPendingLoop_fields)

lemma dispatchPendingLoop_queue:
  "set (pendingRequests (dispatchPendingLoop q s)) \<subseteq> set q"
proof (induction q arbitrary: s)
  case Nil
  then show ?case by simp
next
  case (Cons r rest)
  show ?case
  proof (cases "find (\<lambda>w. \<not> busy w) (pool s)")
    case None
    then show ?thesis by simp
  next
    case (Some idle)
    from Cons.IH[of "sendToProcess (pid idle) r (s\<lparr> pendingRequests := rest \<rparr>)"] Some
    show ?thesis by auto
  qed
qed

lemma onExit_removes:
  assumes member: "p \<in> pid ` set (pool s)"
    and fresh: "list_all (\<lambda>w. pid w < nextPid s) (pool s)"
  shows "p \<notin> pid ` set (pool (onExit p b s))"
proof -
  from member fresh have ne: "nextPid s \<noteq> p" by (auto simp add: list_all_iff)
  have "set (map pid (pool (onExit p b s))) \<subseteq>
          insert (nextPid s) (pid ` set (filter (\<lambda>w. pid w \<noteq> p) (pool s)))"
    by (simp add: onExit_unfold Let_def dispatchPending_def dispatchPendingLoop_fields
        del: set_map set_filter) auto
  with ne show ?thesis by auto
qed

lemma onExit_respawns:
  assumes member: "p \<in> pid ` set (pool s)"
    and sd: "\<not> shuttingDown s" and rs: "\<not> respawning s"
    and sz: "length (pool s) \<le> poolSize s"
  shows "onExit p False s =
     (dispatchPending
        (s\<lparr> respawning := True, nextPid := nextPid s + 1, spawnCount := spawnCount s + 1,
            pool := filter (\<lambda>w. pid w \<noteq> p) (pool s) @
              [\<lparr> pid = nextPid s, busy = False, activeFile = None, requestCount = 0,
                 stdoutListeners = [], hasPipes = True, stdinBroken = False \<rparr>] \<rparr>))
       \<lparr> respawning := False \<rparr>"
proof -
  from member obtain w where w: "w \<in> set (pool s)" "pid w = p" by auto
  then have "length (filter (\<lambda>w. pid w \<noteq> p) (pool s)) < length (pool s)"
    by (intro length_filter_less[of w]) auto
  with sz have "length (filter (\<lambda>w. pid w \<noteq> p) (pool s)) < poolSize s" by simp
  with sd rs show ?thesis by (simp add: onExit_unfold Let_def)
qed

lemma inFlightOn_removed:
  assumes fl: "inFlightOn h p s"
  shows "leftToTimer h (s\<lparr> pool := filter (\<lambda>w. pid w \<noteq> p) (pool s) \<rparr>)"
proof -
  from fl have "\<forall>w\<in>set (pool s). h \<in> set (stdoutListeners w) \<longrightarrow> pid w = p"
    by (simp add: inFlightOn_def list_all_iff)
  then have "h \<notin> set (listening (s\<lparr> pool := filter (\<lambda>w. pid w \<noteq> p) (pool s) \<rparr>))"
    by (auto simp add: listening_def)
  with fl show ?thesis by (simp add: leftToTimer_def inFlightOn_def)
qed

lemma onExit_strands:
  assumes fl: "inFlightOn h p s"
  shows "leftToTimer h (onExit p b s)"
  unfolding onExit_unfold Let_def
  using inFlightOn_removed[OF fl] by (rule respawn_leftToTimer)

lemma onData_gone:
  assumes "p \<notin> pid ` set (pool s)"
  shows "onData p response s = s"
proof -
  from assms have "filter (\<lambda>w. pid w = p) (pool s) = []" by (auto simp add: filter_empty_conv)
  then show ?thesis by (simp add: onData_def)
qed

lemma onExit_spawn_fails:
  "spawnCount (onExit p True s) = spawnCount s \<and>
   pool (onExit p True s) = filter (\<lambda>w. pid w \<noteq> p) (pool s)"
  by (simp add: onExit_unfold Let_def)

lemma onExit_guard_released: "\<not> respawning s \<Longrightarrow> \<not> respawning (onExit p b s)"
  by (simp add: onExit_unfold Let_def)

lemma busyPool_value:
  "busyPool =
     examplePool\<lparr> pool := [exampleWorker\<lparr> busy := True, activeFile := Some ''file:///a.ts'',
                                requestCount := 1, stdoutListeners := [0] \<rparr>],
                  pendingRequests := [secondRequest], timers := [0, 1] \<rparr>"
  by code_simp

lemma worker_exit_example:
  "onExit 1 False busyPool =
     examplePool\<lparr> pool := [exampleWorker\<lparr> pid := 2, busy := True,
                                activeFile := Some ''file:///b.ts'', requestCount := 1,
                                stdoutListeners := [1] \<rparr>],
                  timers := [0, 1], tsgoSettlements := [], nextPid := 3, spawnCount := 2 \<rparr> \<and>
   tsgoSettlements (onTimeout 0 (tsgoRun [TsData 2 ''{}'', TsShutdown] (onExit 1 False busyPool)))
     = [(1, TsgoResolved ''{}''), (0, TsgoRejected timeoutError)]"
  by code_simp

text \<open>
  Claim C4. Let worker \<open>p\<close> of the pool exit while the pool is not shutting down and no
  respawn is under way. The worker is removed from the pool, a response on its stdout
  changes nothing any more, and the respawn guard is released when the handler returns.
  When the spawn succeeds, exactly one replacement joins the pool, at its end and with a
  fresh pid; when the spawn throws, none does. No exit handler spawns more than one worker,
  and none spawns while the guard is set or during shutdown. After the replacement has
  joined, queued requests are dispatched until the queue is empty or every worker is busy,
  and nothing is added to the queue. A request \<open>h\<close> in flight on \<open>p\<close> is failed, by its
  timer: the handler detaches the listener and settles nothing itself, and through every
  later run of requests with other promises, responses, exits, other timers and shutdown,
  the timer of \<open>h\<close> stays armed and \<open>h\<close> stays unsettled, without listener and out of the
  queue; when the timer fires, \<open>h\<close> is settled exactly once, rejected with the timeout
  error.
\<close>

theorem worker_exit_handling:
  assumes member: "p \<in> pid ` set (pool s)"
    and sd: "\<not> shuttingDown s" and rs: "\<not> respawning s"
    and sz: "length (pool s) \<le> poolSize s"
    and fresh: "list_all (\<lambda>w. pid w < nextPid s) (pool s)"
  shows "p \<notin> pid ` set (pool (onExit p spawnThrows s)) \<and>
     \<not> respawning (onExit p spawnThrows s) \<and>
     onData p response (onExit p spawnThrows s) = onExit p spawnThrows s \<and>
     map pid (pool (onExit p False s)) =
       map pid (filter (\<lambda>w. pid w \<noteq> p) (pool s)) @ [nextPid s] \<and>
     spawnCount (onExit p False s) = spawnCount s + 1 \<and>
     spawnCount (onExit p True s) = spawnCount s \<and>
     spawnCount (onExit q b t) \<le> spawnCount t + 1 \<and>
     (respawning t \<or> shuttingDown t \<longrightarrow> spawnCount (onExit q b t) = spawnCount t) \<and>
     set (pendingRequests (onExit p False s)) \<subseteq> set (pendingRequests s) \<and>
     (pendingRequests (onExit p False s) \<noteq> [] \<longrightarrow> list_all busy (pool (onExit p False s))) \<and>
     (inFlightOn h p s \<and> TsTimeout h \<notin> set evs \<and>
      (\<forall>r. TsDispatch r \<in> set evs \<longrightarrow> p_handle r \<noteq> h) \<longrightarrow>
        h \<notin> fst ` set (tsgoSettlements (onExit p spawnThrows s)) \<and>
        leftToTimer h (tsgoRun evs (onExit p spawnThrows s)) \<and>
        filter (\<lambda>x. fst x = h)
          (tsgoSettlements (onTimeout h (tsgoRun evs (onExit p spawnThrows s)))) =
          [(h, TsgoRejected timeoutError)])"
proof -
  let ?s' = "onExit p False s"
  let ?e = "onExit p spawnThrows s"
  let ?sp = "s\<lparr> respawning := True, nextPid := nextPid s + 1, spawnCount := spawnCount s + 1,
            pool := filter (\<lambda>w. pid w \<noteq> p) (pool s) @
              [\<lparr> pid = nextPid s, busy = False, activeFile = None, requestCount = 0,
                 stdoutListeners = [], hasPipes = True, stdinBroken = False \<rparr>] \<rparr>"
  have eq: "?s' = (dispatchPending ?sp)\<lparr> respawning := False \<rparr>"
    using member sd rs sz by (rule onExit_respawns)
  have gone: "p \<notin> pid ` set (pool ?e)" using member fresh by (rule onExit_removes)
  have nr: "\<not> respawning ?e" using rs by (rule onExit_guard_released)
  have od: "onData p response ?e = ?e" using gone by (rule onData_gone)
  have pids: "map pid (pool ?s') = map pid (filter (\<lambda>w. pid w \<noteq> p) (pool s)) @ [nextPid s]"
    unfolding eq by (simp add: dispatchPending_def dispatchPendingLoop_fields)
  have sc: "spawnCount ?s' = spawnCount s + 1"
    unfolding eq by (simp add: dispatchPending_def dispatchPendingLoop_fields)
  have sf: "spawnCount (onExit p True s) = spawnCount s" by (simp add: onExit_spawn_fails)
  note guard = onExit_spawnCount[of q b t]
  have sub: "set (pendingRequests ?s') \<subseteq> set (pendingRequests s)"
    unfolding eq using dispatchPendingLoop_queue[of "pendingRequests ?sp" ?sp]
    by (simp add: dispatchPending_def)
  have sat: "pendingRequests ?s' \<noteq> [] \<longrightarrow> list_all busy (pool ?s')"
    unfolding eq using dispatchPendingLoop_saturates[of "pendingRequests ?sp" ?sp]
    by (simp add: dispatchPending_def)
  have flight: "h \<notin> fst ` set (tsgoSettlements ?e) \<and>
        leftToTimer h (tsgoRun evs ?e) \<and>
        filter (\<lambda>x. fst x = h) (tsgoSettlements (onTimeout h (tsgoRun evs ?e))) =
          [(h, TsgoRejected timeoutError)]"
    if fl: "inFlightOn h p s" and nt: "TsTimeout h \<notin> set evs"
      and nd: "\<forall>r. TsDispatch r \<in> set evs \<longrightarrow> p_handle r \<noteq> h"
  proof -
    have st: "leftToTimer h ?e" using fl by (rule onExit_strands)
    then have un: "h \<notin> fst ` set (tsgoSettlements ?e)" by (simp add: leftToTimer_def)
    from nd have "\<And>r. TsDispatch r \<in> set evs \<Longrightarrow> p_handle r \<noteq> h" by blast
    with st nt have later: "leftToTimer h (tsgoRun evs ?e)" by (rule tsgoRun_leftToTimer)
    then have "h \<in> set (timers (tsgoRun evs ?e))"
      and "h \<notin> fst ` set (tsgoSettlements (tsgoRun evs ?e))" by (simp_all add: leftToTimer_def)
    then have "filter (\<lambda>x. fst x = h)
        (tsgoSettlements (onTimeout h (tsgoRun evs ?e))) = [(h, TsgoRejected timeoutError)]"
      by (rule onTimeout_rejects)
    with un later show ?thesis by blast
  qed
  from gone nr od pids sc sf guard sub sat flight show ?thesis by blast
qed

theorem worker_exit_handling_witness:
  "1 \<in> pid ` set (pool busyPool) \<and> \<not> shuttingDown busyPool \<and> \<not> respawning busyPool \<and>
   length (pool busyPool) \<le> poolSize busyPool \<and>
   list_all (\<lambda>w. pid w < nextPid busyPool) (pool busyPool) \<and>
   inFlightOn 0 1 busyPool \<and>
   TsTimeout 0 \<notin> set [TsData 2 ''{}'', TsShutdown] \<and>
   1 \<notin> pid ` set (pool (onExit 1 False busyPool)) \<and>
   map pid (pool (onExit 1 False busyPool)) = [2] \<and>
   spawnCount (onExit 1 False busyPool) = spawnCount busyPool + 1 \<and>
   pendingRequests (onExit 1 False busyPool) = [] \<and>
   0 \<notin> fst ` set (tsgoSettlements (onExit 1 False busyPool)) \<and>
   leftToTimer 0 (tsgoRun [TsData 2 ''{}'', TsShutdown] (onExit 1 False busyPool)) \<and>
   tsgoSettlements (onTimeout 0 (tsgoRun [TsData 2 ''{}'', TsShutdown] (onExit 1 False busyPool)))
     = [(1, TsgoResolved ''{}''), (0, TsgoRejected timeoutError)]"
proof -
  have h0: "1 \<in> pid ` set (pool busyPool)" by code_simp
  have h1: "inFlightOn 0 1 busyPool" by code_simp
  have h2: "\<not> shuttingDown busyPool" by code_simp
  have h3: "\<not> respawning busyPool" by code_simp
  have h4: "length (pool busyPool) \<le> poolSize busyPool" by code_simp
  have h5: "list_all (\<lambda>w. pid w < nextPid busyPool) (pool busyPool)" by code_simp
  have h6: "TsTimeout 0 \<notin> set [TsData 2 ''{}'', TsShutdown]" by simp
  have h7: "\<forall>r. TsDispatch r \<in> set [TsData 2 ''{}'', TsShutdown] \<longrightarrow> p_handle r \<noteq> 0" by simp
  note t = worker_exit_handling[OF h0 h2 h3 h4 h5, of False _ _ _ _ 0 "[TsData 2 ''{}'', TsShutdown]"]
  from t have c1: "1 \<notin> pid ` set (pool (onExit 1 False busyPool))" by blast
  from t have c2: "spawnCount (onExit 1 False busyPool) = spawnCount busyPool + 1" by blast
  from t h1 h6 h7 have c3: "0 \<notin> fst ` set (tsgoSettlements (onExit 1 False busyPool))" by blast
  from t h1 h6 h7
  have c4: "leftToTimer 0 (tsgoRun [TsData 2 ''{}'', TsShutdown] (onExit 1 False busyPool))"
    by blast
  have v1: "map pid (pool (onExit 1 False busyPool)) = [2]" by code_simp
  have v2: "pendingRequests (onExit 1 False busyPool) = []" by code_simp
  have v3: "tsgoSettlements
      (onTimeout 0 (tsgoRun [TsData 2 ''{}'', TsShutdown] (onExit 1 False busyPool)))
     = [(1, TsgoResolved ''{}''), (0, TsgoRejected timeoutError)]" by code_simp
  show ?thesis by (intro conjI h0 h2 h3 h4 h5 h1 h6 c1 v1 c2 v2 c3 c4 v3)
qed

section \<open>OxcIntegration: exit codes\<close>

text \<open>
  Claim C8. For every run of the linter child: with exit code 0 or 1 the run succeeds and
  stdout is what is parsed; with a higher exit code and an empty stdout the run is
  rejected, the lint result carries no diagnostics and the error is logged; with a higher
  exit code and a non-empty stdout the run succeeds and stdout is parsed. A run that exits
  with code 1 and prints a JSON array of findings yields no error and one diagnostic per
  finding, in the order of the array: the diagnostic has the finding's message, the source
  \<^verbatim>\<open>oxc\<close>, the finding's severity as \<^verbatim>\<open>mapSeverity\<close> maps it, the finding's file name
  (the uri of the request when it has none), the line and column of its start (1 and 1
  when it has none), the line and column of its end when it has one, its rule id as code
  (\<^verbatim>\<open>rule_id\<close> before \<^verbatim>\<open>ruleId\<close>), the compute time of the run, and as data its fix and
  its non-empty help text.
\<close>

theorem oxc_exit_code_policy:
  "(exitCode \<le> 1 \<longrightarrow>
      runOxcWithStdin (Some exitCode) out err = Inr out \<and>
      executeLint jsonParse parseFallback u hash t (Some exitCode) out err =
        (\<lparr> r_uri = u, diagnostics = parseOutput jsonParse parseFallback u out t,
           analysisTimeMs = t, cached = False, r_contentHash = hash \<rparr>, None)) \<and>
   (1 < exitCode \<and> out = [] \<longrightarrow>
      isl (runOxcWithStdin (Some exitCode) out err) \<and>
      fst (executeLint jsonParse parseFallback u hash t (Some exitCode) out err) =
        \<lparr> r_uri = u, diagnostics = [], analysisTimeMs = t, cached = False, r_contentHash = hash \<rparr> \<and>
      snd (executeLint jsonParse parseFallback u hash t (Some exitCode) out err) \<noteq> None) \<and>
   (1 < exitCode \<and> out \<noteq> [] \<longrightarrow>
      runOxcWithStdin (Some exitCode) out err = Inr out \<and>
      executeLint jsonParse parseFallback u hash t (Some exitCode) out err =
        (\<lparr> r_uri = u, diagnostics = parseOutput jsonParse parseFallback u out t,
           analysisTimeMs = t, cached = False, r_contentHash = hash \<rparr>, None)) \<and>
   (exitCode = 1 \<and> trim out \<noteq> [] \<and> jsonParse out = Some items \<longrightarrow>
      executeLint jsonParse parseFallback u hash t (Some exitCode) out err =
        (\<lparr> r_uri = u, diagnostics = map (convertDiagnostic u t) items,
           analysisTimeMs = t, cached = False, r_contentHash = hash \<rparr>, None) \<and>
      (let ds = diagnostics
                  (fst (executeLint jsonParse parseFallback u hash t (Some exitCode) out err))
       in length ds = length items \<and>
          map message ds = map raw_message items \<and>
          map source ds = map (\<lambda>raw. Src_oxc) items \<and>
          map severity ds = map (\<lambda>raw. OxcIntegration_mapSeverity (raw_severity raw)) items \<and>
          map d_file ds = map (\<lambda>raw. case filename raw of Some f \<Rightarrow> f | None \<Rightarrow> u) items \<and>
          map (\<lambda>d. (line d, column d)) ds =
            map (\<lambda>raw. case start_pos raw of Some pos \<Rightarrow> pos | None \<Rightarrow> (1, 1)) items \<and>
          map (\<lambda>d. (endLine d, endColumn d)) ds =
            map (\<lambda>raw. case end_pos raw of Some (l, c) \<Rightarrow> (Some l, Some c)
                                          | None \<Rightarrow> (None, None)) items \<and>
          map code ds =
            map (\<lambda>raw. case rule_id raw of Some r \<Rightarrow> Some r | None \<Rightarrow> ruleId raw) items \<and>
          map computeTimeMs ds = map (\<lambda>raw. t) items \<and>
          map diagData ds =
            map (\<lambda>raw. case (raw_fix raw, raw_help raw) of
                         (None, None) \<Rightarrow> None
                       | (None, Some h) \<Rightarrow> if h = [] then None else Some [(''help'', h)]
                       | (Some f, None) \<Rightarrow> Some [(''fix'', f)]
                       | (Some f, Some h) \<Rightarrow>
                           if h = [] then Some [(''fix'', f)]
                           else Some [(''fix'', f), (''help'', h)]) items))"
proof -
  have conv: "map (\<lambda>d. (line d, column d)) (map (convertDiagnostic u t) items) =
          map (\<lambda>raw. case start_pos raw of Some pos \<Rightarrow> pos | None \<Rightarrow> (1, 1)) items"
    by (simp add: convertDiagnostic_def Let_def o_def split: option.split prod.split)
  have conv2: "map (\<lambda>d. (endLine d, endColumn d)) (map (convertDiagnostic u t) items) =
          map (\<lambda>raw. case end_pos raw of Some (l, c) \<Rightarrow> (Some l, Some c)
                                          | None \<Rightarrow> (None, None)) items"
    by (simp add: convertDiagnostic_def Let_def o_def split: option.split prod.split)
  have conv3: "map diagData (map (convertDiagnostic u t) items) =
            map (\<lambda>raw. case (raw_fix raw, raw_help raw) of
                         (None, None) \<Rightarrow> None
                       | (None, Some h) \<Rightarrow> if h = [] then None else Some [(''help'', h)]
                       | (Some f, None) \<Rightarrow> Some [(''fix'', f)]
                       | (Some f, Some h) \<Rightarrow>
                           if h = [] then Some [(''fix'', f)]
                           else Some [(''fix'', f), (''help'', h)]) items"
    by (simp add: convertDiagnostic_def Let_def o_def split: option.split prod.split)
  have rest: "map message (map (convertDiagnostic u t) items) = map raw_message items"
    "map source (map (convertDiagnostic u t) items) = map (\<lambda>raw. Src_oxc) items"
    "map severity (map (convertDiagnostic u t) items) =
       map (\<lambda>raw. OxcIntegration_mapSeverity (raw_severity raw)) items"
    "map d_file (map (convertDiagnostic u t) items) =
       map (\<lambda>raw. case filename raw of Some f \<Rightarrow> f | None \<Rightarrow> u) items"
    "map code (map (convertDiagnostic u t) items) =
       map (\<lambda>raw. case rule_id raw of Some r \<Rightarrow> Some r | None \<Rightarrow> ruleId raw) items"
    "map computeTimeMs (map (convertDiagnostic u t) items) = map (\<lambda>raw. t) items"
    by (simp_all add: convertDiagnostic_def Let_def o_def)
  have last: "exitCode = 1 \<and> trim out \<noteq> [] \<and> jsonParse out = Some items \<longrightarrow>
      executeLint jsonParse parseFallback u hash t (Some exitCode) out err =
        (\<lparr> r_uri = u, diagnostics = map (convertDiagnostic u t) items,
           analysisTimeMs = t, cached = False, r_contentHash = hash \<rparr>, None)"
    by (auto simp: runOxcWithStdin_def executeLint_def parseOutput_def)
  have first: "(exitCode \<le> 1 \<longrightarrow>
      runOxcWithStdin (Some exitCode) out err = Inr out \<and>
      executeLint jsonParse parseFallback u hash t (Some exitCode) out err =
        (\<lparr> r_uri = u, diagnostics = parseOutput jsonParse parseFallback u out t,
           analysisTimeMs = t, cached = False, r_contentHash = hash \<rparr>, None)) \<and>
   (1 < exitCode \<and> out = [] \<longrightarrow>
      isl (runOxcWithStdin (Some exitCode) out err) \<and>
      fst (executeLint jsonParse parseFallback u hash t (Some exitCode) out err) =
        \<lparr> r_uri = u, diagnostics = [], analysisTimeMs = t, cached = False, r_contentHash = hash \<rparr> \<and>
      snd (executeLint jsonParse parseFallback u hash t (Some exitCode) out err) \<noteq> None) \<and>
   (1 < exitCode \<and> out \<noteq> [] \<longrightarrow>
      runOxcWithStdin (Some exitCode) out err = Inr out \<and>
      executeLint jsonParse parseFallback u hash t (Some exitCode) out err =
        (\<lparr> r_uri = u, diagnostics = parseOutput jsonParse parseFallback u out t,
           analysisTimeMs = t, cached = False, r_contentHash = hash \<rparr>, None))"
    by (auto simp: runOxcWithStdin_def executeLint_def parseOutput_def)
  show ?thesis
    using first last conv conv2 conv3 rest by (simp add: Let_def)
qed

lemma exampleOxcOutput_not_blank: "trim exampleOxcOutput \<noteq> []"
  by code_simp

lemma exampleFindings_severities:
  "map (\<lambda>raw. OxcIntegration_mapSeverity (raw_severity raw)) exampleFindings =
     [Sev_error, Sev_warning]"
  by code_simp

theorem oxc_exit_code_policy_witness:
  "(1::nat) \<le> 1 \<and> trim exampleOxcOutput \<noteq> [] \<and>
   exampleJsonParse exampleOxcOutput = Some exampleFindings \<and>
   snd (executeLint exampleJsonParse noFallback ''file:///a.ts'' ''h'' 12 (Some 1)
          exampleOxcOutput []) = None \<and>
   (let ds = diagnostics (fst (executeLint exampleJsonParse noFallback ''file:///a.ts'' ''h'' 12
                                 (Some 1) exampleOxcOutput []))
    in length ds = 2 \<and>
       map message ds = [''Unexpected debugger statement'', ''x is declared but never used''] \<and>
       map source ds = [Src_oxc, Src_oxc] \<and>
       map severity ds = [Sev_error, Sev_warning] \<and>
       map d_file ds = [''file:///a.ts'', ''file:///a.ts''] \<and>
       map (\<lambda>d. (line d, column d)) ds = [(3, 1), (7, 9)] \<and>
       map (\<lambda>d. (endLine d, endColumn d)) ds = [(Some 3, Some 10), (None, None)] \<and>
       map code ds = [Some ''no-debugger'', Some ''no-unused-vars''] \<and>
       map computeTimeMs ds = [12, 12] \<and>
       map diagData ds = [None, Some [(''help'', ''remove the declaration'')]]) \<and>
   (1::nat) < 2 \<and>
   isl (runOxcWithStdin (Some 2) [] ''panic'') \<and>
   runOxcWithStdin (Some 2) exampleOxcOutput ''panic'' = Inr exampleOxcOutput"
proof -
  have p: "exampleJsonParse exampleOxcOutput = Some exampleFindings"
    by (simp add: exampleJsonParse_def)
  have nb: "trim exampleOxcOutput \<noteq> []" by (rule exampleOxcOutput_not_blank)
  have n: "exampleOxcOutput \<noteq> []" using nb by (auto simp: trim_def)
  have le: "(1::nat) \<le> 1" and lt: "(1::nat) < 2" and e: "(1::nat) = 1" by simp_all
  note inst = oxc_exit_code_policy[of 1 exampleOxcOutput "[]" exampleJsonParse noFallback
        "''file:///a.ts''" "''h''" 12 exampleFindings]
  from inst e nb p
  have a: "executeLint exampleJsonParse noFallback ''file:///a.ts'' ''h'' 12 (Some 1)
             exampleOxcOutput []
           = (\<lparr> r_uri = ''file:///a.ts'',
                diagnostics = map (convertDiagnostic ''file:///a.ts'' 12) exampleFindings,
                analysisTimeMs = 12, cached = False, r_contentHash = ''h'' \<rparr>, None)"
    by blast
  then have noerr: "snd (executeLint exampleJsonParse noFallback ''file:///a.ts'' ''h'' 12 (Some 1)
          exampleOxcOutput []) = None" by simp
  from inst e nb p
  have fields: "let ds = diagnostics
                  (fst (executeLint exampleJsonParse noFallback ''file:///a.ts'' ''h'' 12 (Some 1)
                          exampleOxcOutput []))
       in length ds = length exampleFindings \<and>
          map message ds = map raw_message exampleFindings \<and>
          map source ds = map (\<lambda>raw. Src_oxc) exampleFindings \<and>
          map severity ds = map (\<lambda>raw. OxcIntegration_mapSeverity (raw_severity raw)) exampleFindings \<and>
          map d_file ds = map (\<lambda>raw. case filename raw of Some f \<Rightarrow> f | None \<Rightarrow> ''file:///a.ts'') exampleFindings \<and>
          map (\<lambda>d. (line d, column d)) ds =
            map (\<lambda>raw. case start_pos raw of Some pos \<Rightarrow> pos | None \<Rightarrow> (1, 1)) exampleFindings \<and>
          map (\<lambda>d. (endLine d, endColumn d)) ds =
            map (\<lambda>raw. case end_pos raw of Some (l, c) \<Rightarrow> (Some l, Some c)
                                          | None \<Rightarrow> (None, None)) exampleFindings \<and>
          map code ds =
            map (\<lambda>raw. case rule_id raw of Some r \<Rightarrow> Some r | None \<Rightarrow> ruleId raw) exampleFindings \<and>
          map computeTimeMs ds = map (\<lambda>raw. 12) exampleFindings \<and>
          map diagData ds =
            map (\<lambda>raw. case (raw_fix raw, raw_help raw) of
                         (None, None) \<Rightarrow> None
                       | (None, Some h) \<Rightarrow> if h = [] then None else Some [(''help'', h)]
                       | (Some f, None) \<Rightarrow> Some [(''fix'', f)]
                       | (Some f, Some h) \<Rightarrow>
                           if h = [] then Some [(''fix'', f)]
                           else Some [(''fix'', f), (''help'', h)]) exampleFindings"
    by blast
  have conc: "let ds = diagnostics (fst (executeLint exampleJsonParse noFallback ''file:///a.ts'' ''h'' 12
                                 (Some 1) exampleOxcOutput []))
    in length ds = 2 \<and>
       map message ds = [''Unexpected debugger statement'', ''x is declared but never used''] \<and>
       map source ds = [Src_oxc, Src_oxc] \<and>
       map severity ds = [Sev_error, Sev_warning] \<and>
       map d_file ds = [''file:///a.ts'', ''file:///a.ts''] \<and>
       map (\<lambda>d. (line d, column d)) ds = [(3, 1), (7, 9)] \<and>
       map (\<lambda>d. (endLine d, endColumn d)) ds = [(Some 3, Some 10), (None, None)] \<and>
       map code ds = [Some ''no-debugger'', Some ''no-unused-vars''] \<and>
       map computeTimeMs ds = [12, 12] \<and>
       map diagData ds = [None, Some [(''help'', ''remove the declaration'')]]"
    using fields unfolding Let_def exampleFindings_severities
    by (simp add: exampleFindings_def)
  have b: "isl (runOxcWithStdin (Some 2) [] ''panic'')"
    using oxc_exit_code_policy[of 2 "[]" "''panic''" exampleJsonParse noFallback
        "''file:///a.ts''" "''h''" 12 exampleFindings] lt by blast
  have c: "runOxcWithStdin (Some 2) exampleOxcOutput ''panic'' = Inr exampleOxcOutput"
    using oxc_exit_code_policy[of 2 exampleOxcOutput "''panic''" exampleJsonParse noFallback
        "''file:///a.ts''" "''h''" 12 exampleFindings] lt n by blast
  show ?thesis by (intro conjI le nb p noerr conc lt b c)
qed

section \<open>TypeCache: cascade invalidation\<close>

lemma invalidate_lookup:
  "map_of (entries (snd (FileCache_invalidate k c))) v =
     (if v = k then None else map_of (entries c) v)"
  by (simp add: FileCache_invalidate_def deleteEntry_lookup)

lemma bfsLoop_invariant:
  "bfsLoop g q vis c = (res, c') \<Longrightarrow>
   set vis \<subseteq> R \<Longrightarrow> set q \<subseteq> R \<Longrightarrow>
   (\<forall>v\<in>R. \<forall>w\<in>set (dependentsOf g v). w \<in> R) \<Longrightarrow>
   (\<forall>v\<in>set vis. \<forall>w\<in>set (dependentsOf g v). w \<in> set vis \<union> set q) \<Longrightarrow>
   distinct vis \<Longrightarrow>
   (\<forall>v\<in>set vis. map_of (entries c) v = None) \<Longrightarrow>
   set res \<subseteq> R \<and> set vis \<union> set q \<subseteq> set res \<and>
   (\<forall>v\<in>set res. \<forall>w\<in>set (dependentsOf g v). w \<in> set res) \<and>
   distinct res \<and> (\<forall>v\<in>set res. map_of (entries c') v = None) \<and>
   (\<exists>more. res = vis @ more)"
proof (induction g q vis c rule: bfsLoop.induct)
  case (1 g invalidated c)
  then show ?case by auto
next
  case (2 g current rest invalidated c)
  show ?case
  proof (cases "current \<in> set invalidated")
    case True
    with "2.prems" have run: "bfsLoop g rest invalidated c = (res, c')" by simp
    have "set res \<subseteq> R \<and> set invalidated \<union> set rest \<subseteq> set res \<and>
      (\<forall>v\<in>set res. \<forall>w\<in>set (dependentsOf g v). w \<in> set res) \<and>
      distinct res \<and> (\<forall>v\<in>set res. map_of (entries c') v = None) \<and>
      (\<exists>more. res = invalidated @ more)"
      using "2.prems" True by (intro "2.IH"(1)[OF True run]) auto
    with True show ?thesis by auto
  next
    case False
    let ?vis = "invalidated @ [current]"
    let ?q = "rest @ filter (\<lambda>d. d \<notin> set ?vis) (dependentsOf g current)"
    let ?c = "snd (FileCache_invalidate current c)"
    from False "2.prems" have run: "bfsLoop g ?q ?vis ?c = (res, c')" by simp
    have cur: "current \<in> R" using "2.prems" by simp
    have "set res \<subseteq> R \<and> set ?vis \<union> set ?q \<subseteq> set res \<and>
      (\<forall>v\<in>set res. \<forall>w\<in>set (dependentsOf g v). w \<in> set res) \<and>
      distinct res \<and> (\<forall>v\<in>set res. map_of (entries c') v = None) \<and>
      (\<exists>more. res = ?vis @ more)"
    proof (intro "2.IH"(2)[OF False run])
      show "set ?vis \<subseteq> R" using "2.prems" by simp
      show "set ?q \<subseteq> R" using "2.prems" cur by auto
      show "\<forall>v\<in>R. \<forall>w\<in>set (dependentsOf g v). w \<in> R" using "2.prems" by simp
      show "\<forall>v\<in>set ?vis. \<forall>w\<in>set (dependentsOf g v). w \<in> set ?vis \<union> set ?q"
        using "2.prems"(5) by auto
      show "distinct ?vis" using "2.prems" False by simp
      show "\<forall>v\<in>set ?vis. map_of (entries ?c) v = None"
        using "2.prems"(7) by (simp add: invalidate_lookup)
    qed
    then show ?thesis by auto
  qed
qed

lemma closed_contains_reachable:
  assumes "(u, v) \<in> (edgesOf g)\<^sup>*" and "u \<in> S"
    and "\<forall>a\<in>S. \<forall>b\<in>set (dependentsOf g a). b \<in> S"
  shows "v \<in> S"
  using assms by (induction rule: rtrancl_induct) (auto simp: edgesOf_def)

text \<open>
  Claim C9. \<^verbatim>\<open>invalidateWithDependents(u)\<close> walks \<^verbatim>\<open>dependedOnBy\<close> from \<open>u\<close> with a first-in
  first-out work queue; it returns for every graph, cyclic or not (\<open>bfsLoop\<close> is a total
  function); the returned set, which starts with \<open>u\<close> and has no repetition, is exactly the
  set of files reachable from \<open>u\<close> along reverse-dependency edges, \<open>u\<close> included; and
  afterwards the cache has no entry for any file of that set.
\<close>

theorem invalidateWithDependents_closure:
  assumes "invalidateWithDependents u tc = (invalidated, tc')"
  shows "set invalidated = {v. (u, v) \<in> (reverseEdges tc)\<^sup>*} \<and>
         distinct invalidated \<and> hd invalidated = u \<and>
         (\<forall>v\<in>set invalidated. map_of (entries (tcCache tc')) v = None)"
proof -
  let ?g = "dependedOnBy tc"
  let ?R = "{v. (u, v) \<in> (edgesOf ?g)\<^sup>*}"
  have E: "reverseEdges tc = edgesOf ?g" by (simp add: reverseEdges_def)
  obtain c' where run: "bfsLoop ?g [u] [] (tcCache tc) = (invalidated, c')"
    and tc': "tc' = tc\<lparr> tcCache := c' \<rparr>"
    using assms by (auto simp: invalidateWithDependents_def split: prod.splits)
  have step: "\<forall>v\<in>?R. \<forall>w\<in>set (dependentsOf ?g v). w \<in> ?R"
    by (auto simp: edgesOf_def intro: rtrancl_into_rtrancl)
  have inv: "set invalidated \<subseteq> ?R \<and> set [] \<union> set [u] \<subseteq> set invalidated \<and>
      (\<forall>v\<in>set invalidated. \<forall>w\<in>set (dependentsOf ?g v). w \<in> set invalidated) \<and>
      distinct invalidated \<and> (\<forall>v\<in>set invalidated. map_of (entries c') v = None) \<and>
      (\<exists>more. invalidated = [] @ more)"
    by (rule bfsLoop_invariant[OF run _ _ step]) auto
  have "?R \<subseteq> set invalidated"
    using inv by (auto intro: closed_contains_reachable[where g = ?g and u = u])
  moreover have "hd invalidated = u"
  proof -
    have "bfsLoop ?g [u] [] (tcCache tc)
          = bfsLoop ?g ([] @ filter (\<lambda>d. d \<notin> set ([] @ [u])) (dependentsOf ?g u)) ([] @ [u])
              (snd (FileCache_invalidate u (tcCache tc)))"
      by simp
    with run have run2: "bfsLoop ?g ([] @ filter (\<lambda>d. d \<notin> set ([] @ [u])) (dependentsOf ?g u))
        ([] @ [u]) (snd (FileCache_invalidate u (tcCache tc))) = (invalidated, c')"
      by simp
    have a: "set ([] @ [u]) \<subseteq> ?R" by simp
    have b: "set ([] @ filter (\<lambda>d. d \<notin> set ([] @ [u])) (dependentsOf ?g u)) \<subseteq> ?R"
      by (auto simp: edgesOf_def)
    have c: "\<forall>v\<in>set ([] @ [u]). \<forall>w\<in>set (dependentsOf ?g v).
               w \<in> set ([] @ [u]) \<union> set ([] @ filter (\<lambda>d. d \<notin> set ([] @ [u])) (dependentsOf ?g u))"
      by auto
    have d: "distinct ([] @ [u])" by simp
    have e: "\<forall>v\<in>set ([] @ [u]).
               map_of (entries (snd (FileCache_invalidate u (tcCache tc)))) v = None"
      by (simp add: invalidate_lookup)
    from bfsLoop_invariant[OF run2 a b step c d e]
    have "\<exists>more. invalidated = ([] @ [u]) @ more" by blast
    then show ?thesis by auto
  qed
  ultimately show ?thesis using inv tc' E by auto
qed

lemma exampleTypeCache_run:
  "invalidateWithDependents ''lib'' exampleTypeCache
     = ([''lib'', ''a'', ''b''], snd (invalidateWithDependents ''lib'' exampleTypeCache))"
  by code_simp

lemma exampleTypeCache_left:
  "map fst (entries (tcCache (snd (invalidateWithDependents ''lib'' exampleTypeCache)))) = [''c'']"
  by code_simp

theorem invalidateWithDependents_closure_witness:
  "invalidateWithDependents ''lib'' exampleTypeCache
     = ([''lib'', ''a'', ''b''], snd (invalidateWithDependents ''lib'' exampleTypeCache)) \<and>
   {v. (''lib'', v) \<in> (reverseEdges exampleTypeCache)\<^sup>*} = {''lib'', ''a'', ''b''} \<and>
   map_of (entries (tcCache (snd (invalidateWithDependents ''lib'' exampleTypeCache)))) ''a'' = None \<and>
   map fst (entries (tcCache (snd (invalidateWithDependents ''lib'' exampleTypeCache)))) = [''c'']"
  using invalidateWithDependents_closure[OF exampleTypeCache_run] exampleTypeCache_run
    exampleTypeCache_left
  by auto

section \<open>Severity mapping\<close>

lemma toLowerCase_FATAL: "toLowerCase ''FATAL'' = ''fatal''"
  by code_simp

text \<open>
  Claim C10. Both \<^verbatim>\<open>mapSeverity\<close> functions are total functions of the raw severity string
  (a \<^theory_text>\<open>definition\<close> with a value on every input, no branch raises), and on a string
  whose lower-cased form is not a recognised word the two integrations differ: tsgo answers
  \<open>error\<close>, oxc answers \<open>warning\<close>.
\<close>

theorem mapSeverity_defaults:
  "(toLowerCase sev \<notin> tsgoRecognized \<longrightarrow> TsgoIntegration_mapSeverity sev = Sev_error) \<and>
   (toLowerCase sev \<notin> oxcRecognized \<longrightarrow> OxcIntegration_mapSeverity sev = Sev_warning)"
  by (simp add: TsgoIntegration_mapSeverity_def OxcIntegration_mapSeverity_def
      tsgoRecognized_def oxcRecognized_def Let_def)

theorem mapSeverity_defaults_witness:
  "toLowerCase ''FATAL'' \<notin> tsgoRecognized \<and> toLowerCase ''FATAL'' \<notin> oxcRecognized \<and>
   TsgoIntegration_mapSeverity ''FATAL'' = Sev_error \<and>
   OxcIntegration_mapSeverity ''FATAL'' = Sev_warning"
  using mapSeverity_defaults [of "''FATAL''"]
  by (simp add: toLowerCase_FATAL tsgoRecognized_def oxcRecognized_def)

end
